theory Spec2Isabelle
  imports Main "HOL-Library.Sublist"
begin

section \<open>PubMed author scan: the classification and e-mail pipeline of core.py\<close>

text \<open>
  A shallow embedding of \<^verbatim>\<open>src/pubmed_authorscan/core.py\<close>.

  Python strings are modelled as \<^typ>\<open>string\<close>, the UTF-8 bytes of the text. The code only
  compares strings, searches them for substrings and matches ASCII character classes, and
  all of these agree on code points and on their UTF-8 encoding.
\<close>

subsection \<open>Python strings\<close>

text \<open>
  The string methods whose meaning is a table of the Unicode standard are not defined in
  the repository. They are taken as a parameter: \<^verbatim>\<open>str.lower\<close>, \<^verbatim>\<open>str.strip\<close>
  and the conversion \<^verbatim>\<open>int(s)\<close> of a string (\<open>None\<close> when it raises ValueError).
\<close>

record pylib =
  str_lower :: "string \<Rightarrow> string"
  str_strip :: "string \<Rightarrow> string"
  int_of_str :: "string \<Rightarrow> int option"

text \<open>\<^verbatim>\<open>w in s\<close> for two strings: \<open>w\<close> occurs in \<open>s\<close> as a contiguous substring.\<close>

fun str_contains :: "string \<Rightarrow> string \<Rightarrow> bool" where
  "str_contains [] w = (w = [])"
| "str_contains (c # s) w = (prefix w (c # s) \<or> str_contains s w)"

text \<open>\<^verbatim>\<open>sep.join(xs)\<close>.\<close>

fun join :: "string \<Rightarrow> string list \<Rightarrow> string" where
  "join sep [] = []"
| "join sep [x] = x"
| "join sep (x # y # xs) = x @ sep @ join sep (y # xs)"

subsection \<open>Affiliation classifier\<close>

definition ACADEMIC_KEYWORDS :: "string list" where
  "ACADEMIC_KEYWORDS =
     [''university'', ''college'', ''institute'', ''school'', ''hospital'', ''faculty'',
      ''department'', ''center'', ''centre'', ''academy'',
      ''universit'' @ [CHR 0xC3, CHR 0xA9], ''universidad'',
      ''universit'' @ [CHR 0xC3, CHR 0xA0], ''clinic'']"

definition PHARMA_KEYWORDS :: "string list" where
  "PHARMA_KEYWORDS =
     [''pharma'', ''biotech'', ''therapeutics'', ''laboratories'', ''inc'', ''ltd'', ''gmbh'',
      ''s.a.'', ''s.r.l.'', ''corp'', ''llc'']"

text \<open>
  \<^verbatim>\<open>is_non_academic_affiliation(affil: Optional[str])\<close>. \<^verbatim>\<open>not affil\<close> holds for
  \<^verbatim>\<open>None\<close> and for the empty string; \<^verbatim>\<open>any(word in affil_lower for word in KEYWORDS)\<close>
  is \<^const>\<open>list_ex\<close>.
\<close>

definition is_non_academic_affiliation :: "pylib \<Rightarrow> string option \<Rightarrow> bool" where
  "is_non_academic_affiliation L affil =
     (case affil of
        None \<Rightarrow> False
      | Some a \<Rightarrow>
          if a = [] then False
          else let affil_lower = str_lower L a in
            if list_ex (\<lambda>word. str_contains affil_lower word) ACADEMIC_KEYWORDS then False
            else if list_ex (\<lambda>word. str_contains affil_lower word) PHARMA_KEYWORDS then True
            else False)"

text \<open>
  An instance of the library parameter for examples: on ASCII text \<^verbatim>\<open>str.lower\<close> maps
  \<^verbatim>\<open>A-Z\<close> to \<^verbatim>\<open>a-z\<close>, \<^verbatim>\<open>str.strip\<close> removes leading and trailing white space, and
  \<^verbatim>\<open>int\<close> reads an optionally signed decimal literal between white space.
\<close>

definition in_range :: "char \<Rightarrow> char \<Rightarrow> char \<Rightarrow> bool" where
  "in_range lo hi c = ((of_char lo :: nat) \<le> of_char c \<and> (of_char c :: nat) \<le> of_char hi)"

definition ascii_lower_char :: "char \<Rightarrow> char" where
  "ascii_lower_char c =
     (if in_range CHR ''A'' CHR ''Z'' c then char_of (of_char c + (32::nat)) else c)"

definition is_ascii_space :: "char \<Rightarrow> bool" where
  "is_ascii_space c = (c \<in> set [CHR '' '', CHR 0x09, CHR 0x0A, CHR 0x0B, CHR 0x0C, CHR 0x0D,
      CHR 0x1C, CHR 0x1D, CHR 0x1E, CHR 0x1F])"

definition is_digit :: "char \<Rightarrow> bool" where
  "is_digit c = in_range CHR ''0'' CHR ''9'' c"

definition nat_of_digits :: "string \<Rightarrow> nat" where
  "nat_of_digits ds = foldl (\<lambda>n c. 10 * n + (of_char c - (of_char CHR ''0'' :: nat))) 0 ds"

text \<open>
  The digits of a decimal literal may be grouped by single underscores, which do not
  count: not in front, not at the end, not two in a row.
\<close>

definition is_decimal :: "string \<Rightarrow> bool" where
  "is_decimal ds =
     (ds \<noteq> [] \<and> list_all (\<lambda>c. is_digit c \<or> c = CHR ''_'') ds \<and>
      hd ds \<noteq> CHR ''_'' \<and> last ds \<noteq> CHR ''_'' \<and> \<not> sublist ''__'' ds)"

text \<open>
  \<^verbatim>\<open>int\<close> of an ASCII string skips only the white space of C around the literal: space
  and the characters 9 to 13.
\<close>

definition is_c_space :: "char \<Rightarrow> bool" where
  "is_c_space c = (c \<in> set [CHR '' '', CHR 0x09, CHR 0x0A, CHR 0x0B, CHR 0x0C, CHR 0x0D])"

definition ascii_int_of_str :: "string \<Rightarrow> int option" where
  "ascii_int_of_str s =
     (let t = rev (dropWhile is_c_space (rev (dropWhile is_c_space s)));
          (neg, ds) = (case t of
                         c # r \<Rightarrow> if c = CHR ''-'' then (True, r)
                                  else if c = CHR ''+'' then (False, r) else (False, t)
                       | [] \<Rightarrow> (False, t))
      in if is_decimal ds
         then Some (if neg then - int (nat_of_digits (filter is_digit ds))
                    else int (nat_of_digits (filter is_digit ds)))
         else None)"

definition ascii_lib :: pylib where
  "ascii_lib = \<lparr> str_lower = map ascii_lower_char,
                 str_strip = (\<lambda>s. rev (dropWhile is_ascii_space (rev (dropWhile is_ascii_space s)))),
                 int_of_str = ascii_int_of_str \<rparr>"

subsection \<open>Regular expressions\<close>

text \<open>
  The two patterns of the source are sequences of literal characters and of greedy
  repetitions \<^verbatim>\<open>[class]{n,}\<close> of a character class (\<^verbatim>\<open>+\<close> is \<^verbatim>\<open>{1,}\<close>).
  \<open>match_here\<close> is the backtracking matcher of Python's \<^verbatim>\<open>re\<close> on this fragment: a
  repetition first takes the longest run of the class and gives characters back one at a
  time, down to \<open>n\<close>, until the rest of the pattern matches. The result is the matched text.
\<close>

datatype item = Ch char | Rep "char \<Rightarrow> bool" nat

text \<open>\<open>first_down f lo k\<close>: the first success among \<open>f k, f (k - 1), ..., f lo\<close>.\<close>

primrec first_down :: "(nat \<Rightarrow> 'a option) \<Rightarrow> nat \<Rightarrow> nat \<Rightarrow> 'a option" where
  "first_down f lo 0 = (if lo = 0 then f 0 else None)"
| "first_down f lo (Suc k) =
     (if Suc k < lo then None
      else case f (Suc k) of Some m \<Rightarrow> Some m | None \<Rightarrow> first_down f lo k)"

fun match_here :: "item list \<Rightarrow> string \<Rightarrow> string option" where
  "match_here [] s = Some []"
| "match_here (Ch c # r) s =
     (case s of
        [] \<Rightarrow> None
      | d # t \<Rightarrow> if d = c then map_option ((#) d) (match_here r t) else None)"
| "match_here (Rep p n # r) s =
     first_down (\<lambda>k. map_option ((@) (take k s)) (match_here r (drop k s))) n
       (length (takeWhile p s))"

text \<open>\<^verbatim>\<open>re.search\<close>: the match at the leftmost position that has one; its \<^verbatim>\<open>group(0)\<close>.\<close>

fun re_search :: "item list \<Rightarrow> string \<Rightarrow> string option" where
  "re_search pat [] = match_here pat []"
| "re_search pat (c # s) =
     (case match_here pat (c # s) of Some m \<Rightarrow> Some m | None \<Rightarrow> re_search pat s)"

definition is_alpha :: "char \<Rightarrow> bool" where
  "is_alpha c = (in_range CHR ''A'' CHR ''Z'' c \<or> in_range CHR ''a'' CHR ''z'' c)"

text \<open>\<^verbatim>\<open>[A-Za-z0-9._%+-]\<close>\<close>

definition is_local_char :: "char \<Rightarrow> bool" where
  "is_local_char c = (is_alpha c \<or> is_digit c \<or> c \<in> set ''._%+-'')"

text \<open>\<^verbatim>\<open>[A-Za-z0-9.-]\<close>\<close>

definition is_domain_char :: "char \<Rightarrow> bool" where
  "is_domain_char c = (is_alpha c \<or> is_digit c \<or> c \<in> set ''.-'')"

text \<open>\<^verbatim>\<open>[A-Za-z0-9._%+-]+@[A-Za-z0-9.-]+\.[A-Za-z]{2,}\<close>\<close>

definition EMAIL_PATTERN :: "item list" where
  "EMAIL_PATTERN =
     [Rep is_local_char 1, Ch CHR ''@'', Rep is_domain_char 1, Ch CHR ''.'', Rep is_alpha 2]"

text \<open>
  \<^verbatim>\<open>mailto:([A-Za-z0-9._%+-]+@[A-Za-z0-9.-]+\.[A-Za-z]{2,})\<close>; its \<^verbatim>\<open>group(1)\<close> is the
  match without the seven characters of \<^verbatim>\<open>mailto:\<close>.
\<close>

definition MAILTO_PATTERN :: "item list" where
  "MAILTO_PATTERN = map Ch ''mailto:'' @ EMAIL_PATTERN"

definition extract_email_from_affil :: "string \<Rightarrow> string option" where
  "extract_email_from_affil affil = re_search EMAIL_PATTERN affil"

text \<open>
  The language of a pattern, stated without the matcher: the texts that the pattern
  describes.
\<close>

fun matches :: "item list \<Rightarrow> string \<Rightarrow> bool" where
  "matches [] w = (w = [])"
| "matches (Ch c # r) w = (\<exists>m. w = c # m \<and> matches r m)"
| "matches (Rep p n # r) w = (\<exists>x m. w = x @ m \<and> list_all p x \<and> n \<le> length x \<and> matches r m)"

text \<open>
  An e-mail-shaped text: a non-empty local part of \<^verbatim>\<open>[A-Za-z0-9._%+-]\<close>, an \<^verbatim>\<open>@\<close>,
  a non-empty run of \<^verbatim>\<open>[A-Za-z0-9.-]\<close>, a dot and at least two letters.
\<close>

definition email_shaped :: "string \<Rightarrow> bool" where
  "email_shaped w \<longleftrightarrow>
     (\<exists>l d t. w = l @ ''@'' @ d @ ''.'' @ t \<and> l \<noteq> [] \<and> list_all is_local_char l \<and>
        d \<noteq> [] \<and> list_all is_domain_char d \<and> 2 \<le> length t \<and> list_all is_alpha t)"

subsection \<open>XML elements\<close>

text \<open>
  \<^verbatim>\<open>xml.etree.ElementTree.Element\<close>: tag, attribute dictionary, text, tail and children.
\<close>

datatype element =
  Element (elem_tag: string) (attrib: "(string \<times> string) list") (elem_text: "string option")
    (tail: "string option") (children: "element list")

text \<open>\<^verbatim>\<open>d.get(key, default)\<close> on the attribute dictionary.\<close>

definition attrib_get :: "element \<Rightarrow> string \<Rightarrow> string \<Rightarrow> string" where
  "attrib_get e key dflt = (case map_of (attrib e) key of Some v \<Rightarrow> v | None \<Rightarrow> dflt)"

text \<open>\<^verbatim>\<open>e.findall("T")\<close>: the direct children with tag \<open>T\<close>, in document order.\<close>

definition findall_tag :: "string \<Rightarrow> element \<Rightarrow> element list" where
  "findall_tag t e = filter (\<lambda>c. elem_tag c = t) (children e)"

text \<open>\<^verbatim>\<open>e.findall("T1/T2/...")\<close>\<close>

fun findall_path :: "string list \<Rightarrow> element \<Rightarrow> element list" where
  "findall_path [] e = [e]"
| "findall_path (t # ts) e = concat (map (findall_path ts) (findall_tag t e))"

text \<open>\<^verbatim>\<open>e.find(path)\<close>: the first element of \<^verbatim>\<open>findall\<close>, or \<^verbatim>\<open>None\<close>.\<close>

definition find_path :: "string list \<Rightarrow> element \<Rightarrow> element option" where
  "find_path ts e = (case findall_path ts e of [] \<Rightarrow> None | x # _ \<Rightarrow> Some x)"

definition find_tag :: "string \<Rightarrow> element \<Rightarrow> element option" where
  "find_tag t e = find_path [t] e"

text \<open>
  \<^verbatim>\<open>e.findtext("T")\<close>: \<^verbatim>\<open>None\<close> without such a child, the empty string when the child
  has no text.
\<close>

definition findtext :: "string \<Rightarrow> element \<Rightarrow> string option" where
  "findtext t e =
     (case find_tag t e of
        None \<Rightarrow> None
      | Some x \<Rightarrow> Some (case elem_text x of None \<Rightarrow> [] | Some s \<Rightarrow> s))"

text \<open>The proper descendants of an element in document order (\<^verbatim>\<open>iter()\<close> without itself).\<close>

fun descendants :: "element \<Rightarrow> element list" where
  "descendants (Element t a x tli cs) = concat (map (\<lambda>c. c # descendants c) cs)"

text \<open>\<^verbatim>\<open>e.findall(".//T")\<close>\<close>

definition findall_desc :: "string \<Rightarrow> element \<Rightarrow> element list" where
  "findall_desc t e = filter (\<lambda>c. elem_tag c = t) (descendants e)"

text \<open>A Python value that is \<^verbatim>\<open>None\<close> or a string is true when it is a non-empty string.\<close>

definition truthy :: "string option \<Rightarrow> bool" where
  "truthy x = (case x of None \<Rightarrow> False | Some s \<Rightarrow> s \<noteq> [])"

text \<open>\<^verbatim>\<open>e.itertext()\<close>: the text, then for each child its own texts and its tail.\<close>

definition if_text :: "string option \<Rightarrow> string list" where
  "if_text x = (case x of None \<Rightarrow> [] | Some s \<Rightarrow> if s \<noteq> [] then [s] else [])"

fun itertext :: "element \<Rightarrow> string list" where
  "itertext (Element t a x tli cs) =
     if_text x @ concat (map (\<lambda>c. itertext c @ if_text (tail c)) cs)"

subsection \<open>Decoded JSON and the Python operations on it\<close>

text \<open>
  The values that \<^verbatim>\<open>resp.json()\<close> returns. \<open>JNull\<close> is \<^verbatim>\<open>None\<close>. A float is
  \<open>m * 2 ^ e\<close>, an infinity or not a number. An object keeps the order of its keys; decoded
  objects have distinct keys.
\<close>

datatype pyfloat = Float_finite int int | Float_inf | Float_nan

datatype json =
  JNull | JBool bool | JInt int | JFloat pyfloat | JStr string | JArr "json list"
| JObj "(string \<times> json) list"

datatype exn =
  RequestException | HTTPError | JSONDecodeError | ParseError | KeyError | TypeError
| AttributeError | IndexError | ValueError | OverflowError

definition bind_exn :: "exn + 'a \<Rightarrow> ('a \<Rightarrow> exn + 'b) \<Rightarrow> exn + 'b" where
  "bind_exn m f = (case m of Inl e \<Rightarrow> Inl e | Inr x \<Rightarrow> f x)"

text \<open>The truth value of a Python object.\<close>

fun py_truthy :: "json \<Rightarrow> bool" where
  "py_truthy JNull = False"
| "py_truthy (JBool b) = b"
| "py_truthy (JInt i) = (i \<noteq> 0)"
| "py_truthy (JFloat f) = (case f of Float_finite m e \<Rightarrow> m \<noteq> 0 | _ \<Rightarrow> True)"
| "py_truthy (JStr s) = (s \<noteq> [])"
| "py_truthy (JArr xs) = (xs \<noteq> [])"
| "py_truthy (JObj kvs) = (kvs \<noteq> [])"

text \<open>\<^verbatim>\<open>x.get(key, default)\<close>: only a dictionary has the method.\<close>

fun py_get :: "json \<Rightarrow> string \<Rightarrow> json \<Rightarrow> exn + json" where
  "py_get (JObj kvs) key dflt = Inr (case map_of kvs key of Some v \<Rightarrow> v | None \<Rightarrow> dflt)"
| "py_get _ key dflt = Inl AttributeError"

text \<open>\<^verbatim>\<open>x[key]\<close> for a string key.\<close>

fun py_getitem :: "json \<Rightarrow> string \<Rightarrow> exn + json" where
  "py_getitem (JObj kvs) key = (case map_of kvs key of Some v \<Rightarrow> Inr v | None \<Rightarrow> Inl KeyError)"
| "py_getitem _ key = Inl TypeError"

text \<open>The characters of a string: the UTF-8 sequences of its code points.\<close>

definition utf8_len :: "char \<Rightarrow> nat" where
  "utf8_len c =
     (let n = (of_char c :: nat)
      in if n < 0xC0 then 1 else if n < 0xE0 then 2 else if n < 0xF0 then 3 else 4)"

fun chars :: "string \<Rightarrow> string list" where
  "chars [] = []"
| "chars (c # s) = (c # take (utf8_len c - 1) s) # chars (drop (utf8_len c - 1) s)"

text \<open>\<^verbatim>\<open>x[0]\<close>\<close>

fun py_getitem0 :: "json \<Rightarrow> exn + json" where
  "py_getitem0 (JArr xs) = (case xs of [] \<Rightarrow> Inl IndexError | x # _ \<Rightarrow> Inr x)"
| "py_getitem0 (JStr s) = (case chars s of [] \<Rightarrow> Inl IndexError | c # _ \<Rightarrow> Inr (JStr c))"
| "py_getitem0 (JObj kvs) = Inl KeyError"
| "py_getitem0 _ = Inl TypeError"

text \<open>
  \<^verbatim>\<open>for v in x\<close>: the elements of a list, the keys of a dictionary, the characters of a
  string.
\<close>

fun py_iter :: "json \<Rightarrow> exn + json list" where
  "py_iter (JArr xs) = Inr xs"
| "py_iter (JObj kvs) = Inr (map (\<lambda>kv. JStr (fst kv)) kvs)"
| "py_iter (JStr s) = Inr (map JStr (chars s))"
| "py_iter _ = Inl TypeError"

text \<open>
  \<^verbatim>\<open>key in x\<close> for a string key: a substring of a string, an element of a list, a key of
  a dictionary.
\<close>

fun py_contains :: "string \<Rightarrow> json \<Rightarrow> exn + bool" where
  "py_contains key (JStr s) = Inr (str_contains s key)"
| "py_contains key (JArr xs) = Inr (JStr key \<in> set xs)"
| "py_contains key (JObj kvs) = Inr (key \<in> set (map fst kvs))"
| "py_contains key _ = Inl TypeError"

text \<open>\<^verbatim>\<open>re.search(pattern, x)\<close> raises TypeError unless \<open>x\<close> is a string.\<close>

fun py_re_search :: "item list \<Rightarrow> json \<Rightarrow> exn + string option" where
  "py_re_search pat (JStr s) = Inr (re_search pat s)"
| "py_re_search pat _ = Inl TypeError"

text \<open>\<^verbatim>\<open>int(x)\<close>\<close>

fun py_int :: "pylib \<Rightarrow> json \<Rightarrow> exn + int" where
  "py_int L (JStr s) = (case int_of_str L s of None \<Rightarrow> Inl ValueError | Some i \<Rightarrow> Inr i)"
| "py_int L (JInt i) = Inr i"
| "py_int L (JBool b) = Inr (if b then 1 else 0)"
| "py_int L (JFloat f) =
     (case f of
        Float_finite m e \<Rightarrow>
          Inr (if 0 \<le> e then m * 2 ^ nat e else sgn m * (\<bar>m\<bar> div 2 ^ nat (- e)))
      | Float_inf \<Rightarrow> Inl OverflowError
      | Float_nan \<Rightarrow> Inl ValueError)"
| "py_int L _ = Inl TypeError"

subsection \<open>The outside world\<close>

text \<open>
  The requests of the program, by endpoint:
  ESearch with \<^verbatim>\<open>term\<close>, \<^verbatim>\<open>retmax\<close> and \<^verbatim>\<open>retstart\<close>; EFetch with the joined
  \<^verbatim>\<open>id\<close>; \<^verbatim>\<open>api.crossref.org/works/{doi}\<close>; Europe PMC search for \<^verbatim>\<open>EXT_ID:{pmid}\<close>;
  Europe PMC \<^verbatim>\<open>MED/{pmid}/emails\<close>.
\<close>

datatype request =
  ESearch string int int | EFetch string | CrossRef string | EuropePMC_search string
| EuropePMC_emails string

text \<open>
  What the program does to the world, in order: a GET request, \<^verbatim>\<open>time.sleep(THROTTLE_SECONDS)\<close>
  and the \<^verbatim>\<open>time.sleep(0.2)\<close> after a resolver. Console output is not recorded.
\<close>

datatype event = Get request | Sleep_throttle | Sleep_resolver

text \<open>
  \<^verbatim>\<open>requests.get\<close> raises, or returns a response with a status code and a body. A body
  decodes as JSON, parses as XML, or does neither.
\<close>

datatype payload = Json json | Xml element | Undecodable

datatype http_result = Connection_failed | Response int payload

text \<open>
  The services answer a request in the light of everything that happened before it, so
  that two equal requests may be answered differently.
\<close>

type_synonym service = "event list \<Rightarrow> request \<Rightarrow> http_result"

text \<open>\<^verbatim>\<open>resp.json()\<close>; its JSONDecodeError is a ValueError.\<close>

definition resp_json :: "payload \<Rightarrow> exn + json" where
  "resp_json b = (case b of Json j \<Rightarrow> Inr j | _ \<Rightarrow> Inl JSONDecodeError)"

text \<open>\<^verbatim>\<open>ET.fromstring(resp.content)\<close>\<close>

definition fromstring :: "payload \<Rightarrow> exn + element" where
  "fromstring b = (case b of Xml e \<Rightarrow> Inr e | _ \<Rightarrow> Inl ParseError)"

text \<open>\<^verbatim>\<open>resp.raise_for_status()\<close> raises HTTPError for the statuses 400 to 599.\<close>

definition is_error_status :: "int \<Rightarrow> bool" where
  "is_error_status status = (400 \<le> status \<and> status < 600)"

subsection \<open>External e-mail resolvers\<close>

text \<open>
  Each resolver is a \<^verbatim>\<open>try\<close> block, modelled by the function with suffix \<open>_try\<close>, whose
  exceptions the handler \<^verbatim>\<open>except Exception: return None\<close> turns into \<^verbatim>\<open>None\<close>. A loop
  with a \<^verbatim>\<open>return\<close> inside yields \<open>Some v\<close> when it returned \<open>v\<close> and \<open>None\<close> when it ran
  to its end.
\<close>

text \<open>First loop of \<^verbatim>\<open>get_email_from_crossref\<close>: an author's \<^verbatim>\<open>email\<close> field.\<close>

fun crossref_email_loop :: "json list \<Rightarrow> exn + json option" where
  "crossref_email_loop [] = Inr None"
| "crossref_email_loop (author # rest) =
     bind_exn (py_get author ''email'' JNull) (\<lambda>email.
       if py_truthy email
       then (case email of
               JStr s \<Rightarrow> Inr (Some email)
             | _ \<Rightarrow> bind_exn (py_getitem0 email) (\<lambda>v. Inr (Some v)))
       else crossref_email_loop rest)"

text \<open>Second loop, inner part: the affiliations of one author.\<close>

fun crossref_affil_loop :: "json list \<Rightarrow> exn + json option" where
  "crossref_affil_loop [] = Inr None"
| "crossref_affil_loop (affil # rest) =
     bind_exn (py_get affil ''name'' (JStr [])) (\<lambda>name.
     bind_exn (py_contains ''mailto:'' name) (\<lambda>found.
       if found
       then bind_exn (py_getitem affil ''name'') (\<lambda>name'.
            bind_exn (py_re_search MAILTO_PATTERN name') (\<lambda>match.
              case match of
                Some m \<Rightarrow> Inr (Some (JStr (drop 7 m)))
              | None \<Rightarrow> crossref_affil_loop rest))
       else crossref_affil_loop rest))"

fun crossref_mailto_loop :: "json list \<Rightarrow> exn + json option" where
  "crossref_mailto_loop [] = Inr None"
| "crossref_mailto_loop (author # rest) =
     bind_exn (py_get author ''affiliation'' (JArr [])) (\<lambda>affils.
     bind_exn (py_iter affils) (\<lambda>affil_list.
     bind_exn (crossref_affil_loop affil_list) (\<lambda>r.
       case r of Some v \<Rightarrow> Inr (Some v) | None \<Rightarrow> crossref_mailto_loop rest)))"

definition get_email_from_crossref_try :: "service \<Rightarrow> string \<Rightarrow> event list \<Rightarrow> exn + json" where
  "get_email_from_crossref_try env doi log =
     (case env log (CrossRef doi) of
        Connection_failed \<Rightarrow> Inl RequestException
      | Response status body \<Rightarrow>
          if status \<noteq> 200 then Inr JNull
          else
            bind_exn (resp_json body) (\<lambda>data.
            bind_exn (py_get data ''message'' (JObj [])) (\<lambda>message.
            bind_exn (py_get message ''author'' (JArr [])) (\<lambda>authors.
            bind_exn (py_iter authors) (\<lambda>author_list.
            bind_exn (crossref_email_loop author_list) (\<lambda>r.
              case r of
                Some v \<Rightarrow> Inr v
              | None \<Rightarrow>
                  bind_exn (crossref_mailto_loop author_list) (\<lambda>r'.
                    case r' of Some v \<Rightarrow> Inr v | None \<Rightarrow> Inr JNull)))))))"

definition get_email_from_crossref ::
  "service \<Rightarrow> string \<Rightarrow> event list \<Rightarrow> (exn + json) \<times> event list" where
  "get_email_from_crossref env doi log =
     ((case get_email_from_crossref_try env doi log of Inl e \<Rightarrow> Inr JNull | Inr v \<Rightarrow> Inr v),
      log @ [Get (CrossRef doi)])"

text \<open>\<^verbatim>\<open>get_email_from_europepmc\<close>: the authors of one result.\<close>

fun europepmc_author_loop :: "json list \<Rightarrow> exn + json option" where
  "europepmc_author_loop [] = Inr None"
| "europepmc_author_loop (author # rest) =
     bind_exn (py_contains ''email'' author) (\<lambda>found.
       if found then bind_exn (py_getitem author ''email'') (\<lambda>v. Inr (Some v))
       else europepmc_author_loop rest)"

text \<open>The second \<^verbatim>\<open>if\<close> of the loop body; \<^verbatim>\<open>and\<close> evaluates its right side only when needed.\<close>

definition europepmc_affiliation :: "json \<Rightarrow> exn + json option" where
  "europepmc_affiliation result =
     bind_exn (py_contains ''affiliation'' result) (\<lambda>has.
       if \<not> has then Inr None
       else bind_exn (py_getitem result ''affiliation'') (\<lambda>affiliation.
            bind_exn (py_contains ''@'' affiliation) (\<lambda>has_at.
              if \<not> has_at then Inr None
              else bind_exn (py_getitem result ''affiliation'') (\<lambda>affiliation'.
                   bind_exn (py_re_search EMAIL_PATTERN affiliation') (\<lambda>match.
                     Inr (map_option JStr match))))))"

fun europepmc_result_loop :: "json list \<Rightarrow> exn + json option" where
  "europepmc_result_loop [] = Inr None"
| "europepmc_result_loop (result # rest) =
     bind_exn (py_contains ''authorList'' result) (\<lambda>has_authors.
     bind_exn
       (if has_authors
        then bind_exn (py_getitem result ''authorList'') (\<lambda>author_list.
             bind_exn (py_getitem author_list ''author'') (\<lambda>authors.
             bind_exn (py_iter authors) europepmc_author_loop))
        else Inr None)
       (\<lambda>r. case r of
          Some v \<Rightarrow> Inr (Some v)
        | None \<Rightarrow>
            bind_exn (europepmc_affiliation result) (\<lambda>r'.
              case r' of Some v \<Rightarrow> Inr (Some v) | None \<Rightarrow> europepmc_result_loop rest)))"

definition get_email_from_europepmc_try :: "service \<Rightarrow> string \<Rightarrow> event list \<Rightarrow> exn + json" where
  "get_email_from_europepmc_try env pmid log =
     (case env log (EuropePMC_search pmid) of
        Connection_failed \<Rightarrow> Inl RequestException
      | Response status body \<Rightarrow>
          if status \<noteq> 200 then Inr JNull
          else
            bind_exn (resp_json body) (\<lambda>data.
            bind_exn (py_get data ''resultList'' (JObj [])) (\<lambda>result_list.
            bind_exn (py_get result_list ''result'' (JArr [])) (\<lambda>results.
              if \<not> py_truthy results then Inr JNull
              else
                bind_exn (py_iter results) (\<lambda>rs.
                bind_exn (europepmc_result_loop rs) (\<lambda>r.
                  case r of Some v \<Rightarrow> Inr v | None \<Rightarrow> Inr JNull))))))"

definition get_email_from_europepmc ::
  "service \<Rightarrow> string \<Rightarrow> event list \<Rightarrow> (exn + json) \<times> event list" where
  "get_email_from_europepmc env pmid log =
     ((case get_email_from_europepmc_try env pmid log of Inl e \<Rightarrow> Inr JNull | Inr v \<Rightarrow> Inr v),
      log @ [Get (EuropePMC_search pmid)])"

definition get_email_from_europepmc_emails_endpoint_try ::
  "service \<Rightarrow> string \<Rightarrow> event list \<Rightarrow> exn + json" where
  "get_email_from_europepmc_emails_endpoint_try env pmid log =
     (case env log (EuropePMC_emails pmid) of
        Connection_failed \<Rightarrow> Inl RequestException
      | Response status body \<Rightarrow>
          if status \<noteq> 200 then Inr JNull
          else
            bind_exn (resp_json body) (\<lambda>data.
            bind_exn (py_get data ''emailList'' (JObj [])) (\<lambda>email_list.
            bind_exn (py_get email_list ''email'' (JArr [])) (\<lambda>emails.
              if py_truthy emails then py_getitem0 emails else Inr JNull))))"

definition get_email_from_europepmc_emails_endpoint ::
  "service \<Rightarrow> string \<Rightarrow> event list \<Rightarrow> (exn + json) \<times> event list" where
  "get_email_from_europepmc_emails_endpoint env pmid log =
     ((case get_email_from_europepmc_emails_endpoint_try env pmid log of
         Inl e \<Rightarrow> Inr JNull
       | Inr v \<Rightarrow> Inr v),
      log @ [Get (EuropePMC_emails pmid)])"

subsection \<open>Article parser\<close>

text \<open>The string of a value that is \<^verbatim>\<open>None\<close> or a string; read only under \<^const>\<open>truthy\<close>.\<close>

definition str_of :: "string option \<Rightarrow> string" where
  "str_of x = (case x of None \<Rightarrow> [] | Some s \<Rightarrow> s)"

text \<open>
  \<^verbatim>\<open>extract_pub_date\<close>: \<^verbatim>\<open>filter(None, [year, month, day])\<close> keeps the components that
  are non-empty strings.
\<close>

definition extract_pub_date :: "element \<Rightarrow> string" where
  "extract_pub_date article_info =
     (case find_path [''Journal'', ''JournalIssue'', ''PubDate''] article_info of
        Some date \<Rightarrow>
          join ''-'' (concat (map if_text
            [findtext ''Year'' date, findtext ''Month'' date, findtext ''Day'' date]))
      | None \<Rightarrow> [])"

definition extract_author_name :: "element \<Rightarrow> string" where
  "extract_author_name author =
     (let last = findtext ''LastName'' author; initials = findtext ''Initials'' author
      in if truthy last \<and> truthy initials then str_of last @ '', '' @ str_of initials
         else if truthy last then str_of last else ''Unknown'')"

fun get_doi_loop :: "pylib \<Rightarrow> element list \<Rightarrow> string option" where
  "get_doi_loop L [] = None"
| "get_doi_loop L (aid # rest) =
     (if str_lower L (attrib_get aid ''IdType'' []) = ''doi'' \<and> truthy (elem_text aid)
      then Some (str_strip L (str_of (elem_text aid)))
      else get_doi_loop L rest)"

definition get_doi_from_pubmed_xml :: "pylib \<Rightarrow> element \<Rightarrow> string option" where
  "get_doi_from_pubmed_xml L article = get_doi_loop L (findall_desc ''ArticleId'' article)"

text \<open>
  The lists that the loop over the authors fills (source lines 294 to 296).
\<close>

record scan =
  non_acad_authors :: "string list"
  company_affils :: "string list"
  possible_emails :: "string list"

text \<open>
  \<^verbatim>\<open>affils = [affil.text for affil in author.findall("AffiliationInfo/Affiliation") if affil.text]\<close>
\<close>

definition author_affils :: "element \<Rightarrow> string list" where
  "author_affils author =
     concat (map (\<lambda>affil. if_text (elem_text affil))
       (findall_path [''AffiliationInfo'', ''Affiliation''] author))"

text \<open>
  The variable \<^verbatim>\<open>email_from_identifier\<close> after the loop over the \<^verbatim>\<open>Identifier\<close> children
  and the loop over the \<^verbatim>\<open>ElectronicAddress\<close> children (source lines 301 to 307).
\<close>

definition identifier_step :: "pylib \<Rightarrow> string option \<Rightarrow> element \<Rightarrow> string option" where
  "identifier_step L cur identifier =
     (if str_lower L (attrib_get identifier ''Source'' []) = ''email'' \<and>
         truthy (elem_text identifier)
      then elem_text identifier else cur)"

definition elec_addr_step :: "string option \<Rightarrow> element \<Rightarrow> string option" where
  "elec_addr_step cur elec_addr = (if truthy (elem_text elec_addr) then elem_text elec_addr else cur)"

definition email_from_identifier :: "pylib \<Rightarrow> element \<Rightarrow> string option" where
  "email_from_identifier L author =
     foldl elec_addr_step
       (foldl (identifier_step L) None (findall_tag ''Identifier'' author))
       (findall_tag ''ElectronicAddress'' author)"

text \<open>The body of \<^verbatim>\<open>for affil in affils\<close> (source lines 313 to 322).\<close>

definition affil_step :: "pylib \<Rightarrow> element \<Rightarrow> scan \<Rightarrow> string \<Rightarrow> scan" where
  "affil_step L author sc affil =
     (if is_non_academic_affiliation L (Some affil)
      then
        let name = extract_author_name author;
            sc1 = sc\<lparr>non_acad_authors := non_acad_authors sc @ [name],
                    company_affils := company_affils sc @ [affil]\<rparr>;
            email = extract_email_from_affil affil
        in if truthy email
           then if str_contains (str_lower L affil) ''corresponding''
                then sc1\<lparr>possible_emails := str_of email # possible_emails sc1\<rparr>
                else sc1\<lparr>possible_emails := possible_emails sc1 @ [str_of email]\<rparr>
           else sc1
      else sc)"

text \<open>The body of \<^verbatim>\<open>for author in authors.findall("Author")\<close> (source lines 300 to 322).\<close>

definition author_step :: "pylib \<Rightarrow> scan \<Rightarrow> element \<Rightarrow> scan" where
  "author_step L sc author =
     (let affils = author_affils author;
          email = email_from_identifier L author;
          sc1 = (if truthy email
                 then sc\<lparr>possible_emails := possible_emails sc @ [str_of email]\<rparr> else sc)
      in if affils = [] then sc1 else foldl (affil_step L author) sc1 affils)"

definition empty_scan :: scan where
  "empty_scan = \<lparr>non_acad_authors = [], company_affils = [], possible_emails = []\<rparr>"

text \<open>The \<^verbatim>\<open>Author\<close> elements that the loop visits.\<close>

definition article_authors :: "element \<Rightarrow> element list" where
  "article_authors article_info =
     (case find_tag ''AuthorList'' article_info of
        None \<Rightarrow> []
      | Some authors \<Rightarrow> findall_tag ''Author'' authors)"

definition scan_authors :: "pylib \<Rightarrow> element \<Rightarrow> scan" where
  "scan_authors L article_info = foldl (author_step L) empty_scan (article_authors article_info)"

text \<open>
  One step of the cascade: \<^verbatim>\<open>if guard: corresponding_email = resolver(...); time.sleep(0.2)\<close>.
\<close>

definition run_resolver ::
  "(event list \<Rightarrow> (exn + json) \<times> event list) \<Rightarrow> bool \<Rightarrow> json \<Rightarrow> event list
     \<Rightarrow> (exn + json) \<times> event list" where
  "run_resolver resolver guard current log =
     (if guard
      then (case resolver log of
              (Inl e, log') \<Rightarrow> (Inl e, log')
            | (Inr v, log') \<Rightarrow> (Inr v, log' @ [Sleep_resolver]))
      else (Inr current, log))"

text \<open>Source lines 327 to 341: the value of \<^verbatim>\<open>corresponding_email\<close>.\<close>

definition resolve_email ::
  "pylib \<Rightarrow> service \<Rightarrow> element \<Rightarrow> element \<Rightarrow> string list \<Rightarrow> event list
     \<Rightarrow> (exn + json) \<times> event list" where
  "resolve_email L env article medline emails log =
     (case emails of
        e # _ \<Rightarrow> (Inr (JStr e), log)
      | [] \<Rightarrow>
          let doi = get_doi_from_pubmed_xml L article;
              pmid = findtext ''PMID'' medline
          in case run_resolver (get_email_from_crossref env (str_of doi)) (truthy doi) JNull log of
               (Inl e, log1) \<Rightarrow> (Inl e, log1)
             | (Inr email1, log1) \<Rightarrow>
                 (case run_resolver (get_email_from_europepmc env (str_of pmid))
                         (\<not> py_truthy email1 \<and> truthy pmid) email1 log1 of
                    (Inl e, log2) \<Rightarrow> (Inl e, log2)
                  | (Inr email2, log2) \<Rightarrow>
                      run_resolver (get_email_from_europepmc_emails_endpoint env (str_of pmid))
                        (\<not> py_truthy email2 \<and> truthy pmid) email2 log2))"

record parsed_record =
  PubmedID :: "string option"
  Title :: string
  Publication_Date :: string
  Non_academic_Authors :: string
  Company_Affiliations :: string
  Corresponding_Author_Email :: json

definition parse_pubmed_article ::
  "pylib \<Rightarrow> service \<Rightarrow> element \<Rightarrow> event list \<Rightarrow> (exn + parsed_record option) \<times> event list"
  where
  "parse_pubmed_article L env article log =
     (case find_tag ''MedlineCitation'' article of
        None \<Rightarrow> (Inr None, log)
      | Some medline \<Rightarrow>
          (case find_tag ''Article'' medline of
             None \<Rightarrow> (Inr None, log)
           | Some article_info \<Rightarrow>
               let pmid = findtext ''PMID'' medline;
                   title = (case find_tag ''ArticleTitle'' article_info of
                              Some title_elem \<Rightarrow> str_strip L (concat (itertext title_elem))
                            | None \<Rightarrow> []);
                   pub_date = extract_pub_date article_info;
                   sc = scan_authors L article_info
               in if non_acad_authors sc = [] then (Inr None, log)
                  else
                    (case resolve_email L env article medline (possible_emails sc) log of
                       (Inl e, log') \<Rightarrow> (Inl e, log')
                     | (Inr corresponding_email, log') \<Rightarrow>
                         (Inr (Some \<lparr>PubmedID = pmid, Title = title, Publication_Date = pub_date,
                            Non_academic_Authors = join ''; '' (non_acad_authors sc),
                            Company_Affiliations = join ''; '' (company_affils sc),
                            Corresponding_Author_Email =
                              (if py_truthy corresponding_email then corresponding_email
                               else JStr [])\<rparr>),
                          log'))))"

subsection \<open>Search and fetch\<close>

text \<open>\<^verbatim>\<open>int(data["esearchresult"]["count"])\<close>\<close>

definition read_count :: "pylib \<Rightarrow> json \<Rightarrow> exn + int" where
  "read_count L data =
     bind_exn (py_getitem data ''esearchresult'') (\<lambda>r.
     bind_exn (py_getitem r ''count'') (py_int L))"

text \<open>
  \<^verbatim>\<open>ids = data["esearchresult"].get("idlist", [])\<close> and the elements that
  \<^verbatim>\<open>all_ids.extend(ids)\<close> adds.
\<close>

definition read_idlist :: "json \<Rightarrow> exn + json list" where
  "read_idlist data =
     bind_exn (py_getitem data ''esearchresult'') (\<lambda>r.
     bind_exn (py_get r ''idlist'' (JArr [])) py_iter)"

text \<open>
  The \<^verbatim>\<open>while True\<close> loop of \<^verbatim>\<open>fetch_pubmed_ids\<close>. It need not end (a page size of zero
  never advances the offset): \<open>None\<close> is a run that never returns.
\<close>

partial_function (option) esearch_loop ::
  "pylib \<Rightarrow> service \<Rightarrow> string \<Rightarrow> int \<Rightarrow> int \<Rightarrow> int option \<Rightarrow> json list \<Rightarrow> event list
     \<Rightarrow> ((exn + json list) \<times> event list) option" where
  "esearch_loop L env query retmax retstart total_count all_ids log =
     (let log1 = log @ [Get (ESearch query retmax retstart)]
      in case env log (ESearch query retmax retstart) of
           Connection_failed \<Rightarrow> Some (Inl RequestException, log1)
         | Response status body \<Rightarrow>
             if is_error_status status then Some (Inl HTTPError, log1)
             else
               let log2 = log1 @ [Sleep_throttle]
               in case resp_json body of
                    Inl e \<Rightarrow> Some (Inl e, log2)
                  | Inr data \<Rightarrow>
                      (case (case total_count of None \<Rightarrow> read_count L data | Some t \<Rightarrow> Inr t) of
                         Inl e \<Rightarrow> Some (Inl e, log2)
                       | Inr total' \<Rightarrow>
                           (case read_idlist data of
                              Inl e \<Rightarrow> Some (Inl e, log2)
                            | Inr ids \<Rightarrow>
                                if retstart + retmax \<ge> total'
                                then Some (Inr (all_ids @ ids), log2)
                                else esearch_loop L env query retmax (retstart + retmax)
                                       (Some total') (all_ids @ ids) log2)))"

text \<open>\<^verbatim>\<open>query.strip().replace("\n", " ").replace("\t", " ")\<close>\<close>

definition replace_char :: "char \<Rightarrow> char \<Rightarrow> string \<Rightarrow> string" where
  "replace_char old new s = map (\<lambda>c. if c = old then new else c) s"

definition clean_query :: "pylib \<Rightarrow> string \<Rightarrow> string" where
  "clean_query L query = replace_char (CHR 0x09) CHR '' '' (replace_char (CHR 0x0A) CHR '' '' (str_strip L query))"

definition fetch_pubmed_ids ::
  "pylib \<Rightarrow> service \<Rightarrow> string \<Rightarrow> int \<Rightarrow> event list \<Rightarrow> ((exn + json list) \<times> event list) option"
  where
  "fetch_pubmed_ids L env query retmax log =
     esearch_loop L env (clean_query L query) retmax 0 None [] log"

text \<open>
  The inner loop of \<^verbatim>\<open>fetch_pubmed_details\<close>: parse each article and keep the results
  that are not \<^verbatim>\<open>None\<close> (a record is a non-empty dictionary, hence true).
\<close>

fun parse_articles ::
  "pylib \<Rightarrow> service \<Rightarrow> element list \<Rightarrow> parsed_record list \<Rightarrow> event list
     \<Rightarrow> (exn + parsed_record list) \<times> event list" where
  "parse_articles L env [] results log = (Inr results, log)"
| "parse_articles L env (article # rest) results log =
     (case parse_pubmed_article L env article log of
        (Inl e, log') \<Rightarrow> (Inl e, log')
      | (Inr None, log') \<Rightarrow> parse_articles L env rest results log'
      | (Inr (Some result), log') \<Rightarrow> parse_articles L env rest (results @ [result]) log')"

definition BATCH_SIZE :: nat where
  "BATCH_SIZE = 100"

text \<open>
  The loop \<^verbatim>\<open>for i in range(0, len(pubmed_ids), BATCH_SIZE)\<close>, from the index \<open>i\<close> on.
\<close>

function fetch_batches ::
  "pylib \<Rightarrow> service \<Rightarrow> string list \<Rightarrow> nat \<Rightarrow> parsed_record list \<Rightarrow> event list
     \<Rightarrow> (exn + parsed_record list) \<times> event list" where
  "fetch_batches L env pubmed_ids i results log =
     (if i \<ge> length pubmed_ids then (Inr results, log)
      else
        let batch_ids = take BATCH_SIZE (drop i pubmed_ids);
            req = EFetch (join '','' batch_ids);
            log1 = log @ [Get req]
        in case env log req of
             Connection_failed \<Rightarrow> (Inl RequestException, log1)
           | Response status body \<Rightarrow>
               if is_error_status status then (Inl HTTPError, log1)
               else
                 let log2 = (if i + BATCH_SIZE < length pubmed_ids
                             then log1 @ [Sleep_throttle] else log1)
                 in case fromstring body of
                      Inl e \<Rightarrow> (Inl e, log2)
                    | Inr root \<Rightarrow>
                        (case parse_articles L env (findall_desc ''PubmedArticle'' root)
                                results log2 of
                           (Inl e, log3) \<Rightarrow> (Inl e, log3)
                         | (Inr results', log3) \<Rightarrow>
                             fetch_batches L env pubmed_ids (i + BATCH_SIZE) results' log3))"
  by pat_completeness auto
termination
  by (relation "measure (\<lambda>(L, env, pubmed_ids, i, results, log). length pubmed_ids - i)")
     (auto simp: BATCH_SIZE_def)

definition fetch_pubmed_details ::
  "pylib \<Rightarrow> service \<Rightarrow> string list \<Rightarrow> event list
     \<Rightarrow> (exn + parsed_record list) \<times> event list" where
  "fetch_pubmed_details L env pubmed_ids log =
     (if pubmed_ids = [] then (Inr [], log)
      else fetch_batches L env pubmed_ids 0 [] log)"

subsection \<open>Notions used in the statements\<close>

text \<open>The \<^verbatim>\<open>MedlineCitation/Article\<close> element that the parser reads, when there is one.\<close>

definition article_info_of :: "element \<Rightarrow> element option" where
  "article_info_of article =
     (case find_tag ''MedlineCitation'' article of
        None \<Rightarrow> None
      | Some medline \<Rightarrow> find_tag ''Article'' medline)"

text \<open>All affiliation texts of an article, in the order in which the parser visits them.\<close>

definition article_affils :: "element \<Rightarrow> string list" where
  "article_affils article_info = concat (map author_affils (article_authors article_info))"

text \<open>Some author of the article has an affiliation that is classified non-academic.\<close>

definition has_non_academic_author :: "pylib \<Rightarrow> element \<Rightarrow> bool" where
  "has_non_academic_author L article =
     (case article_info_of article of
        None \<Rightarrow> False
      | Some article_info \<Rightarrow>
          list_ex (\<lambda>author. list_ex (\<lambda>affil. is_non_academic_affiliation L (Some affil))
                     (author_affils author))
            (article_authors article_info))"

text \<open>
  An affiliation from which the parser takes a prioritised e-mail: classified
  non-academic, with \<^verbatim>\<open>corresponding\<close> in its lower-cased text and an e-mail match.
\<close>

definition corresponding_affil :: "pylib \<Rightarrow> string \<Rightarrow> bool" where
  "corresponding_affil L affil =
     (is_non_academic_affiliation L (Some affil) \<and>
      str_contains (str_lower L affil) ''corresponding'' \<and>
      extract_email_from_affil affil \<noteq> None)"

text \<open>
  The \<^verbatim>\<open>Identifier\<close> children of an author that are typed as e-mail and carry text, and
  the \<^verbatim>\<open>ElectronicAddress\<close> children that carry text.
\<close>

definition email_identifiers :: "pylib \<Rightarrow> element \<Rightarrow> element list" where
  "email_identifiers L author =
     filter (\<lambda>i. str_lower L (attrib_get i ''Source'' []) = ''email'' \<and> truthy (elem_text i))
       (findall_tag ''Identifier'' author)"

definition electronic_addresses :: "element \<Rightarrow> element list" where
  "electronic_addresses author =
     filter (\<lambda>x. truthy (elem_text x)) (findall_tag ''ElectronicAddress'' author)"

text \<open>
  The embedded e-mail of an author as the specification words it: the electronic address
  when there is one, else the e-mail identifier; of several, the last.
\<close>

definition embedded_email :: "pylib \<Rightarrow> element \<Rightarrow> string option" where
  "embedded_email L author =
     (if electronic_addresses author \<noteq> [] then elem_text (last (electronic_addresses author))
      else if email_identifiers L author \<noteq> []
      then elem_text (last (email_identifiers L author))
      else None)"

text \<open>
  The candidate list as the specification words it. The prioritised candidates are the
  e-mail matches of the affiliations that are classified non-academic and say
  \<^verbatim>\<open>corresponding\<close>. The other candidates of an author are the embedded e-mail and the
  e-mail matches of the author's non-academic affiliations that do not say it.
\<close>

definition prioritised_emails :: "pylib \<Rightarrow> string list \<Rightarrow> string list" where
  "prioritised_emails L affils =
     map (\<lambda>a. str_of (extract_email_from_affil a)) (filter (corresponding_affil L) affils)"

definition plain_affil :: "pylib \<Rightarrow> string \<Rightarrow> bool" where
  "plain_affil L affil =
     (is_non_academic_affiliation L (Some affil) \<and>
      \<not> str_contains (str_lower L affil) ''corresponding'' \<and>
      extract_email_from_affil affil \<noteq> None)"

definition appended_emails :: "pylib \<Rightarrow> element \<Rightarrow> string list" where
  "appended_emails L author =
     if_text (embedded_email L author) @
     map (\<lambda>a. str_of (extract_email_from_affil a)) (filter (plain_affil L) (author_affils author))"

text \<open>
  What a page of the search says, read off the decoded body: its count field is \<open>n\<close>, as
  a number or as a string that \<^verbatim>\<open>int\<close> reads as \<open>n\<close>; its identifier list is \<open>ids\<close>.
\<close>

definition reports_total :: "pylib \<Rightarrow> json \<Rightarrow> int \<Rightarrow> bool" where
  "reports_total L data n =
     (\<exists>kvs r c. data = JObj kvs \<and> map_of kvs ''esearchresult'' = Some (JObj r) \<and>
        map_of r ''count'' = Some c \<and>
        (c = JInt n \<or> (\<exists>s. c = JStr s \<and> int_of_str L s = Some n)))"

definition lists_ids :: "json \<Rightarrow> json list \<Rightarrow> bool" where
  "lists_ids data ids =
     (\<exists>kvs r. data = JObj kvs \<and> map_of kvs ''esearchresult'' = Some (JObj r) \<and>
        map_of r ''idlist'' = Some (JArr ids))"

text \<open>
  The events of the page number \<open>k\<close> of a search, pages counted from 0: the request at the
  offset \<open>k * retmax\<close> and the throttle pause; and the events of the first \<open>n\<close> pages.
\<close>

definition page_events :: "string \<Rightarrow> int \<Rightarrow> nat \<Rightarrow> event list" where
  "page_events q retmax k = [Get (ESearch q retmax (int k * retmax)), Sleep_throttle]"

definition paging :: "string \<Rightarrow> int \<Rightarrow> nat \<Rightarrow> event list" where
  "paging q retmax n = concat (map (page_events q retmax) [0..<n])"

text \<open>The requests among the events of a run, in order.\<close>

fun requests_of :: "event list \<Rightarrow> request list" where
  "requests_of [] = []"
| "requests_of (Get r # evs) = r # requests_of evs"
| "requests_of (_ # evs) = requests_of evs"

fun is_efetch :: "request \<Rightarrow> bool" where
  "is_efetch (EFetch ids) = True"
| "is_efetch _ = False"

text \<open>A list cut into consecutive pieces of \<open>n\<close> elements; the last piece may be shorter.\<close>

fun batches :: "nat \<Rightarrow> 'a list \<Rightarrow> 'a list list" where
  "batches n xs = (if n = 0 \<or> xs = [] then [] else take n xs # batches n (drop n xs))"

text \<open>The records among a list of parse results.\<close>

definition records :: "parsed_record option list \<Rightarrow> parsed_record list" where
  "records outs = concat (map (\<lambda>out. case out of None \<Rightarrow> [] | Some r \<Rightarrow> [r]) outs)"

text \<open>A world in which every request fails, for examples that make no use of the network.\<close>

definition offline :: service where
  "offline log req = Connection_failed"

text \<open>
  A page of the search that arrives: the request is answered, without an error status, by
  a body that decodes to \<open>data\<close>.
\<close>

definition page_ok :: "service \<Rightarrow> event list \<Rightarrow> request \<Rightarrow> json \<Rightarrow> bool" where
  "page_ok env log req data =
     (\<exists>status. env log req = Response status (Json data) \<and> \<not> is_error_status status)"

subsection \<open>Example inputs\<close>

definition text_elem :: "string \<Rightarrow> string \<Rightarrow> element" where
  "text_elem t s = Element t [] (Some s) None []"

definition node :: "string \<Rightarrow> element list \<Rightarrow> element" where
  "node t cs = Element t [] None None cs"

definition example_author :: "string \<Rightarrow> string \<Rightarrow> string list \<Rightarrow> element" where
  "example_author last_name initials affils =
     node ''Author''
       ([text_elem ''LastName'' last_name, text_elem ''Initials'' initials] @
        map (\<lambda>a. node ''AffiliationInfo'' [text_elem ''Affiliation'' a]) affils)"

definition example_info :: "element list \<Rightarrow> element" where
  "example_info authors =
     node ''Article'' [text_elem ''ArticleTitle'' ''A study'', node ''AuthorList'' authors]"

definition example_article :: "string \<Rightarrow> element list \<Rightarrow> element list \<Rightarrow> element" where
  "example_article pmid authors article_ids =
     node ''PubmedArticle''
       [node ''MedlineCitation'' [text_elem ''PMID'' pmid, example_info authors],
        node ''PubmedData'' [node ''ArticleIdList'' article_ids]]"

text \<open>
  Three authors whose affiliations all say \<^verbatim>\<open>corresponding\<close> and carry an address: the
  first two at companies, the last at a university.
\<close>

definition three_authors :: "element list" where
  "three_authors =
     [example_author ''Doe'' ''J'' [''Acme Pharma Inc. Corresponding author: jane@acme.com''],
      example_author ''Poe'' ''E'' [''Beta Biotech Ltd. Corresponding author: poe@beta.com''],
      example_author ''Roe'' ''R'' [''Corresponding author: University of X, roe@x.edu'']]"

text \<open>
  An author at a university with an \<^verbatim>\<open>email\<close> identifier and an electronic address.
\<close>

definition author_with_addresses :: element where
  "author_with_addresses =
     node ''Author''
       [text_elem ''LastName'' ''Lee'',
        Element ''Identifier'' [(''Source'', ''Email'')] (Some ''id@x.edu'') None [],
        text_elem ''ElectronicAddress'' ''ea@x.edu'',
        node ''AffiliationInfo'' [text_elem ''Affiliation'' ''University of X'']]"

text \<open>An author at a university with an \<^verbatim>\<open>email\<close> identifier only.\<close>

definition author_with_identifier :: element where
  "author_with_identifier =
     node ''Author''
       [text_elem ''LastName'' ''Kim'',
        Element ''Identifier'' [(''Source'', ''ORCID'')] (Some ''0000-0001'') None [],
        Element ''Identifier'' [(''Source'', ''EMAIL'')] (Some ''kim@y.edu'') None [],
        node ''AffiliationInfo'' [text_elem ''Affiliation'' ''College of Y'']]"


text \<open>A world in which the three resolvers fail in the three ways.\<close>

definition broken :: service where
  "broken log req =
     (case req of
        CrossRef doi \<Rightarrow> Connection_failed
      | EuropePMC_search pmid \<Rightarrow> Response 503 (Json (JObj []))
      | _ \<Rightarrow> Response 200 Undecodable)"


text \<open>An article whose only author works at a university.\<close>

definition academic_article :: element where
  "academic_article =
     example_article ''2''
       [example_author ''Roe'' ''R'' [''Corresponding author: University of X, roe@x.edu'']] []"

text \<open>A world whose detail endpoint answers every batch with the same two articles.\<close>

definition detail_service :: service where
  "detail_service log req =
     (case req of
        EFetch ids \<Rightarrow>
          Response 200 (Xml (node ''PubmedArticleSet''
            [example_article ''1'' three_authors [], academic_article]))
      | _ \<Rightarrow> Connection_failed)"

text \<open>
  A search service that reports \<open>n\<close> results on its first page, nothing on the later
  pages, and serves the identifiers in pages as asked.
\<close>

definition paged_service :: "int \<Rightarrow> service" where
  "paged_service n log req =
     (case req of
        ESearch q retmax retstart \<Rightarrow>
          Response 200 (Json (JObj [(''header'', JObj []),
            (''esearchresult'',
               JObj [(''count'', if retstart = 0 then JInt n else JStr ''0''),
                     (''idlist'',
                        JArr (replicate (nat (min retmax (n - retstart))) (JStr ''31452104'')))])]))
      | _ \<Rightarrow> Connection_failed)"

section \<open>Properties\<close>

lemma str_contains_iff: "str_contains s w \<longleftrightarrow> (\<exists>u v. s = u @ w @ v)"
proof (induction s)
  case Nil
  then show ?case by auto
next
  case (Cons c s)
  show ?case
  proof
    assume "str_contains (c # s) w"
    then consider "prefix w (c # s)" | "str_contains s w" by auto
    then show "\<exists>u v. c # s = u @ w @ v"
    proof cases
      case 1
      then obtain v where "c # s = w @ v" by (auto simp: prefix_def)
      then have "c # s = [] @ w @ v" by simp
      then show ?thesis by blast
    next
      case 2
      with Cons.IH obtain u v where "s = u @ w @ v" by blast
      then have "c # s = (c # u) @ w @ v" by simp
      then show ?thesis by blast
    qed
  next
    assume "\<exists>u v. c # s = u @ w @ v"
    then obtain u v where uv: "c # s = u @ w @ v" by blast
    show "str_contains (c # s) w"
    proof (cases u)
      case Nil
      with uv have "prefix w (c # s)" by (simp add: prefix_def)
      then show ?thesis by simp
    next
      case (Cons d u')
      with uv have "s = u' @ w @ v" by simp
      with Cons.IH have "str_contains s w" by blast
      then show ?thesis by simp
    qed
  qed
qed

subsection \<open>Affiliation classifier\<close>

lemma list_ex_contains:
  "list_ex (\<lambda>word. str_contains s word) ws \<longleftrightarrow> (\<exists>w\<in>set ws. sublist w s)"
  by (simp add: list_ex_iff str_contains_iff sublist_def)

text \<open>
  Claim C3. \<open>is_non_academic_affiliation\<close> is false for an absent and for an empty
  affiliation; it is false when the lower-cased text contains an academic keyword, also
  when it contains a commercial keyword as well; it is false when the lower-cased text
  contains no commercial keyword; and it is true exactly when the text is non-empty, its
  lower-cased form contains no academic keyword and contains some commercial keyword.
\<close>

theorem is_non_academic_affiliation_spec:
  "\<not> is_non_academic_affiliation L None \<and>
   \<not> is_non_academic_affiliation L (Some []) \<and>
   ((\<exists>w\<in>set ACADEMIC_KEYWORDS. sublist w (str_lower L a)) \<longrightarrow>
      \<not> is_non_academic_affiliation L (Some a)) \<and>
   ((\<forall>w\<in>set PHARMA_KEYWORDS. \<not> sublist w (str_lower L a)) \<longrightarrow>
      \<not> is_non_academic_affiliation L (Some a)) \<and>
   (is_non_academic_affiliation L (Some a) \<longleftrightarrow>
      a \<noteq> [] \<and> (\<forall>w\<in>set ACADEMIC_KEYWORDS. \<not> sublist w (str_lower L a)) \<and>
      (\<exists>w\<in>set PHARMA_KEYWORDS. sublist w (str_lower L a)))"
  unfolding is_non_academic_affiliation_def Let_def list_ex_contains
  by auto

theorem is_non_academic_affiliation_spec_witness:
  "sublist ''university'' (str_lower ascii_lib ''Univ Pharma, University of X'') \<and>
   ''university'' \<in> set ACADEMIC_KEYWORDS \<and>
   sublist ''pharma'' (str_lower ascii_lib ''Univ Pharma, University of X'') \<and>
   ''pharma'' \<in> set PHARMA_KEYWORDS \<and>
   \<not> is_non_academic_affiliation ascii_lib (Some ''Univ Pharma, University of X'') \<and>
   \<not> (\<exists>w\<in>set PHARMA_KEYWORDS. sublist w (str_lower ascii_lib ''Jane Doe'')) \<and>
   \<not> is_non_academic_affiliation ascii_lib (Some ''Jane Doe'') \<and>
   \<not> (\<exists>w\<in>set ACADEMIC_KEYWORDS. sublist w (str_lower ascii_lib ''Acme Pharma Inc'')) \<and>
   is_non_academic_affiliation ascii_lib (Some ''Acme Pharma Inc'')"
proof -
  have h1: "sublist ''university'' (str_lower ascii_lib ''Univ Pharma, University of X'')"
    by code_simp
  have h2: "''university'' \<in> set ACADEMIC_KEYWORDS" by code_simp
  have h3: "sublist ''pharma'' (str_lower ascii_lib ''Univ Pharma, University of X'')"
    by code_simp
  have h4: "''pharma'' \<in> set PHARMA_KEYWORDS" by code_simp
  have h5: "\<forall>w\<in>set PHARMA_KEYWORDS. \<not> sublist w (str_lower ascii_lib ''Jane Doe'')"
    by code_simp
  have h6: "\<forall>w\<in>set ACADEMIC_KEYWORDS. \<not> sublist w (str_lower ascii_lib ''Acme Pharma Inc'')"
    by code_simp
  have h7: "sublist ''pharma'' (str_lower ascii_lib ''Acme Pharma Inc'')" by code_simp
  have h8: "''Acme Pharma Inc'' \<noteq> []" by simp
  from is_non_academic_affiliation_spec[of ascii_lib "''Univ Pharma, University of X''"] h1 h2
  have c1: "\<not> is_non_academic_affiliation ascii_lib (Some ''Univ Pharma, University of X'')"
    by blast
  from is_non_academic_affiliation_spec[of ascii_lib "''Jane Doe''"] h5
  have c2: "\<not> is_non_academic_affiliation ascii_lib (Some ''Jane Doe'')" by blast
  from is_non_academic_affiliation_spec[of ascii_lib "''Acme Pharma Inc''"] h4 h6 h7 h8
  have c3: "is_non_academic_affiliation ascii_lib (Some ''Acme Pharma Inc'')" by blast
  from h1 h2 h3 h4 h5 h6 c1 c2 c3 show ?thesis by blast
qed

subsection \<open>E-mail extraction\<close>

lemma first_down_None: "first_down f lo k = None \<longleftrightarrow> (\<forall>j. lo \<le> j \<and> j \<le> k \<longrightarrow> f j = None)"
proof (induction k)
  case 0
  then show ?case by auto
next
  case (Suc k)
  show ?case
  proof (cases "Suc k < lo")
    case True
    then show ?thesis by auto
  next
    case False
    show ?thesis
    proof (cases "f (Suc k)")
      case None
      have "(\<forall>j. lo \<le> j \<and> j \<le> Suc k \<longrightarrow> f j = None) \<longleftrightarrow> (\<forall>j. lo \<le> j \<and> j \<le> k \<longrightarrow> f j = None)"
        using None by (auto simp: le_Suc_eq)
      with None False Suc.IH show ?thesis by simp
    next
      case (Some m)
      from False have "lo \<le> Suc k" by simp
      with Some have "\<not> (\<forall>j. lo \<le> j \<and> j \<le> Suc k \<longrightarrow> f j = None)" by auto
      with Some False show ?thesis by simp
    qed
  qed
qed

lemma first_down_Some:
  "first_down f lo k = Some m \<Longrightarrow> \<exists>j. lo \<le> j \<and> j \<le> k \<and> f j = Some m"
proof (induction k)
  case 0
  then show ?case by (auto split: if_splits)
next
  case (Suc k)
  show ?case
  proof (cases "f (Suc k)")
    case None
    with Suc.prems have "first_down f lo k = Some m" by (auto split: if_splits)
    with Suc.IH obtain j where "lo \<le> j" "j \<le> k" "f j = Some m" by blast
    then have "lo \<le> j \<and> j \<le> Suc k \<and> f j = Some m" by simp
    then show ?thesis by blast
  next
    case (Some m')
    with Suc.prems have "\<not> Suc k < lo" "m' = m" by (auto split: if_splits)
    with Some have "lo \<le> Suc k \<and> Suc k \<le> Suc k \<and> f (Suc k) = Some m" by simp
    then show ?thesis by blast
  qed
qed

lemma take_takeWhile_all:
  "j \<le> length (takeWhile p s) \<Longrightarrow> list_all p (take j s) \<and> length (take j s) = j"
proof (induction s arbitrary: j)
  case Nil
  then show ?case by simp
next
  case (Cons c s)
  show ?case
  proof (cases j)
    case 0
    then show ?thesis by simp
  next
    case (Suc j')
    with Cons.prems have "p c" "j' \<le> length (takeWhile p s)" by (auto split: if_splits)
    with Cons.IH[of j'] Suc show ?thesis by simp
  qed
qed

lemma all_prefix_takeWhile: "list_all p x \<Longrightarrow> length x \<le> length (takeWhile p (x @ r))"
  by (induction x) auto

lemma match_here_sound: "match_here pat s = Some m \<Longrightarrow> prefix m s \<and> matches pat m"
proof (induction pat s arbitrary: m rule: match_here.induct)
  case (1 s)
  then show ?case by simp
next
  case (2 c r s)
  then show ?case by (auto split: list.splits if_splits)
next
  case (3 p n r s)
  let ?f = "\<lambda>k. map_option ((@) (take k s)) (match_here r (drop k s))"
  from "3.prems" have "first_down ?f n (length (takeWhile p s)) = Some m" by simp
  from first_down_Some[OF this] obtain j where j: "n \<le> j" "j \<le> length (takeWhile p s)"
    and fj: "?f j = Some m" by blast
  from fj obtain m' where m': "match_here r (drop j s) = Some m'" "m = take j s @ m'" by auto
  from "3.IH"[OF m'(1)] have ih: "prefix m' (drop j s)" "matches r m'" by auto
  from ih(1) obtain v where v: "drop j s = m' @ v" by (auto simp: prefix_def)
  have "s = take j s @ drop j s" by simp
  with v have "s = m @ v" using m'(2) by simp
  then have "prefix m s" by (simp add: prefix_def)
  moreover have "matches (Rep p n # r) m"
  proof -
    from take_takeWhile_all[OF j(2)] have "list_all p (take j s)" "length (take j s) = j" by auto
    with j(1) ih(2) m'(2) have "m = take j s @ m' \<and> list_all p (take j s) \<and> n \<le> length (take j s) \<and> matches r m'"
      by simp
    then show ?thesis unfolding matches.simps by blast
  qed
  ultimately show ?case by simp
qed

lemma match_here_complete: "matches pat m \<Longrightarrow> match_here pat (m @ v) \<noteq> None"
proof (induction pat "m @ v" arbitrary: m v rule: match_here.induct)
  case 1
  then show ?case by simp
next
  case (2 c r)
  then show ?case by auto
next
  case (3 p n r)
  let ?s = "m @ v"
  let ?f = "\<lambda>k. map_option ((@) (take k ?s)) (match_here r (drop k ?s))"
  from "3.prems" obtain x m' where x: "m = x @ m'" "list_all p x" "n \<le> length x" "matches r m'"
    by auto
  have len: "length x \<le> length (takeWhile p ?s)"
    using all_prefix_takeWhile[OF x(2), of "m' @ v"] x(1) by simp
  have dr: "drop (length x) ?s = m' @ v" using x(1) by simp
  from "3.hyps"[OF dr x(4)] have ne: "match_here r (drop (length x) ?s) \<noteq> None" using dr by simp
  have "first_down ?f n (length (takeWhile p ?s)) \<noteq> None"
  proof
    assume "first_down ?f n (length (takeWhile p ?s)) = None"
    then have "\<forall>j. n \<le> j \<and> j \<le> length (takeWhile p ?s) \<longrightarrow> ?f j = None"
      by (simp only: first_down_None)
    then have "?f (length x) = None" using x(3) len by simp
    with ne show False by simp
  qed
  then show ?case by simp
qed

lemma re_search_None: "re_search pat s = None \<longleftrightarrow> (\<forall>u t. s = u @ t \<longrightarrow> match_here pat t = None)"
proof (induction s)
  case Nil
  then show ?case by simp
next
  case (Cons c s)
  show ?case
  proof (cases "match_here pat (c # s)")
    case None
    have "(\<forall>u t. c # s = u @ t \<longrightarrow> match_here pat t = None) \<longleftrightarrow> (\<forall>u t. s = u @ t \<longrightarrow> match_here pat t = None)"
      using None by (auto simp: Cons_eq_append_conv)
    with None Cons.IH show ?thesis by simp
  next
    case (Some m)
    then have "\<not> (\<forall>u t. c # s = u @ t \<longrightarrow> match_here pat t = None)"
      by (metis append_Nil option.distinct(1))
    with Some show ?thesis by simp
  qed
qed

lemma re_search_Some:
  "re_search pat s = Some m \<Longrightarrow>
     \<exists>u t. s = u @ t \<and> match_here pat t = Some m \<and>
       (\<forall>u' t'. s = u' @ t' \<and> length u' < length u \<longrightarrow> match_here pat t' = None)"
proof (induction s)
  case Nil
  then have "[] = [] @ [] \<and> match_here pat [] = Some m \<and>
       (\<forall>u' t'. [] = u' @ t' \<and> length u' < length ([]::string) \<longrightarrow> match_here pat t' = None)"
    by simp
  then show ?case by (intro exI)
next
  case (Cons c s)
  show ?case
  proof (cases "match_here pat (c # s)")
    case None
    with Cons.prems have "re_search pat s = Some m" by simp
    from Cons.IH[OF this] obtain u t where ut: "s = u @ t" "match_here pat t = Some m"
      and mn: "\<And>u' t'. s = u' @ t' \<Longrightarrow> length u' < length u \<Longrightarrow> match_here pat t' = None"
      by auto
    have "\<forall>u' t'. c # s = u' @ t' \<and> length u' < length (c # u) \<longrightarrow> match_here pat t' = None"
    proof (intro allI impI)
      fix u' t' assume a: "c # s = u' @ t' \<and> length u' < length (c # u)"
      show "match_here pat t' = None"
      proof (cases u')
        case Nil
        with a None show ?thesis by simp
      next
        case (Cons d u'')
        with a have "s = u'' @ t'" "length u'' < length u" by auto
        then show ?thesis by (rule mn)
      qed
    qed
    moreover have "c # s = (c # u) @ t" using ut(1) by simp
    ultimately have "c # s = (c # u) @ t \<and> match_here pat t = Some m \<and>
      (\<forall>u' t'. c # s = u' @ t' \<and> length u' < length (c # u) \<longrightarrow> match_here pat t' = None)"
      using ut(2) by simp
    then show ?thesis by (intro exI)
  next
    case (Some m')
    with Cons.prems have "m' = m" by simp
    with Some have "c # s = [] @ (c # s) \<and> match_here pat (c # s) = Some m \<and>
       (\<forall>u' t'. c # s = u' @ t' \<and> length u' < length ([]::string) \<longrightarrow> match_here pat t' = None)"
      by simp
    then show ?thesis by (intro exI)
  qed
qed

lemma matches_EMAIL_PATTERN: "matches EMAIL_PATTERN w \<longleftrightarrow> email_shaped w"
  unfolding EMAIL_PATTERN_def email_shaped_def
  apply (simp)
  apply (rule iffI)
   apply (elim exE conjE)
  subgoal for x m m2 x2 m3 m4
    apply (rule exI[of _ x], rule exI[of _ x2], rule exI[of _ m4])
    by auto
  apply (elim exE conjE)
  subgoal for l d t
    apply (rule exI[of _ l], rule exI[of _ "CHR ''@'' # d @ CHR ''.'' # t"])
    apply (auto simp: Suc_le_eq)
    done
  done

lemma first_down_Some_max:
  "first_down f lo k = Some m \<Longrightarrow>
     \<exists>j. lo \<le> j \<and> j \<le> k \<and> f j = Some m \<and> (\<forall>i. j < i \<and> i \<le> k \<longrightarrow> f i = None)"
proof (induction k)
  case 0
  then have "lo \<le> 0 \<and> (0::nat) \<le> 0 \<and> f 0 = Some m \<and> (\<forall>i. 0 < i \<and> i \<le> 0 \<longrightarrow> f i = None)"
    by (auto split: if_splits)
  then show ?case by (rule exI)
next
  case (Suc k)
  show ?case
  proof (cases "f (Suc k)")
    case None
    with Suc.prems have "first_down f lo k = Some m" by (auto split: if_splits)
    from Suc.IH[OF this] obtain j where j: "lo \<le> j" "j \<le> k" "f j = Some m"
      "\<forall>i. j < i \<and> i \<le> k \<longrightarrow> f i = None" by blast
    have "\<forall>i. j < i \<and> i \<le> Suc k \<longrightarrow> f i = None"
      using j(4) None by (auto simp: le_Suc_eq)
    with j have "lo \<le> j \<and> j \<le> Suc k \<and> f j = Some m \<and>
       (\<forall>i. j < i \<and> i \<le> Suc k \<longrightarrow> f i = None)" by simp
    then show ?thesis by (rule exI)
  next
    case (Some m')
    with Suc.prems have "\<not> Suc k < lo" "m' = m" by (auto split: if_splits)
    with Some have "lo \<le> Suc k \<and> Suc k \<le> Suc k \<and> f (Suc k) = Some m \<and>
       (\<forall>i. Suc k < i \<and> i \<le> Suc k \<longrightarrow> f i = None)" by auto
    then show ?thesis by (rule exI)
  qed
qed

lemma first_down_total:
  "first_down (\<lambda>k. Some (g k)) lo k = (if lo \<le> k then Some (g k) else None)"
  by (cases k) auto

lemma match_last_rep:
  "match_here [Rep p n] s =
     (if n \<le> length (takeWhile p s) then Some (takeWhile p s) else None)"
proof -
  have "match_here [Rep p n] s =
      first_down (\<lambda>k. Some (take k s)) n (length (takeWhile p s))"
    by simp
  also have "\<dots> = (if n \<le> length (takeWhile p s)
      then Some (take (length (takeWhile p s)) s) else None)"
    by (rule first_down_total)
  also have "take (length (takeWhile p s)) s = takeWhile p s"
    by (rule takeWhile_eq_take[symmetric])
  finally show ?thesis .
qed

lemma match_dot_letters:
  "match_here [Ch c, Rep p n] s =
     (case s of
        [] \<Rightarrow> None
      | x # r \<Rightarrow> if x = c \<and> n \<le> length (takeWhile p r) then Some (c # takeWhile p r) else None)"
proof (cases s)
  case Nil
  then show ?thesis by simp
next
  case (Cons x r)
  have "match_here [Ch c, Rep p n] (x # r) =
      (if x = c then map_option ((#) x) (match_here [Rep p n] r) else None)"
    by (subst match_here.simps(2)) (simp only: list.case)
  also have "\<dots> = (if x = c \<and> n \<le> length (takeWhile p r)
      then Some (c # takeWhile p r) else None)"
    unfolding match_last_rep by simp
  finally show ?thesis using Cons by simp
qed

lemma takeWhile_stop:
  "list_all p x \<Longrightarrow> \<not> p c \<Longrightarrow> takeWhile p (x @ c # r) = x"
  by (induction x) auto

lemma not_local_at: "\<not> is_local_char CHR ''@''"
  by code_simp

lemma not_alpha_dot: "\<not> is_alpha CHR ''.''"
  by code_simp

text \<open>The shape of a match at a given position.\<close>

lemma email_match_shape:
  assumes "match_here EMAIL_PATTERN s = Some m"
  shows "\<exists>l d rest. s = l @ CHR ''@'' # d @ CHR ''.'' # rest \<and>
     l \<noteq> [] \<and> list_all is_local_char l \<and> d \<noteq> [] \<and> list_all is_domain_char d \<and>
     2 \<le> length (takeWhile is_alpha rest) \<and>
     m = l @ CHR ''@'' # d @ CHR ''.'' # takeWhile is_alpha rest \<and>
     (\<forall>d' rest'. d @ CHR ''.'' # rest = d' @ CHR ''.'' # rest' \<and> list_all is_domain_char d' \<and>
        length d < length d' \<longrightarrow> length (takeWhile is_alpha rest') < 2)"
proof -
  let ?P1 = "[Rep is_domain_char 1, Ch CHR ''.'', Rep is_alpha 2]"
  let ?K = "length (takeWhile is_local_char s)"
  let ?f = "\<lambda>k. map_option ((@) (take k s)) (match_here (Ch CHR ''@'' # ?P1) (drop k s))"
  from assms have "first_down ?f 1 ?K = Some m" by (simp add: EMAIL_PATTERN_def)
  from first_down_Some[OF this] obtain j where j: "1 \<le> j" "j \<le> ?K" "?f j = Some m" by blast
  from j(3) obtain m1 where m1: "match_here (Ch CHR ''@'' # ?P1) (drop j s) = Some m1"
    "m = take j s @ m1" by auto
  from m1(1) obtain s2 m2 where s2: "drop j s = CHR ''@'' # s2" "m1 = CHR ''@'' # m2"
    "match_here ?P1 s2 = Some m2"
    by (cases "drop j s") (auto split: if_splits)
  from take_takeWhile_all[OF j(2)] have l: "list_all is_local_char (take j s)"
    "length (take j s) = j" by auto
  have s_eq: "s = take j s @ CHR ''@'' # s2" using s2(1) by (metis append_take_drop_id)
  let ?KD = "length (takeWhile is_domain_char s2)"
  let ?g = "\<lambda>k. map_option ((@) (take k s2)) (match_here [Ch CHR ''.'', Rep is_alpha 2] (drop k s2))"
  from s2(3) have "first_down ?g 1 ?KD = Some m2" by simp
  from first_down_Some_max[OF this] obtain jd where jd: "1 \<le> jd" "jd \<le> ?KD" "?g jd = Some m2"
    and mx: "\<forall>i. jd < i \<and> i \<le> ?KD \<longrightarrow> ?g i = None" by blast
  from jd(3) obtain m3 where m3: "match_here [Ch CHR ''.'', Rep is_alpha 2] (drop jd s2) = Some m3"
    "m2 = take jd s2 @ m3" by auto
  from m3(1) obtain rest where rest: "drop jd s2 = CHR ''.'' # rest"
    "2 \<le> length (takeWhile is_alpha rest)" "m3 = CHR ''.'' # takeWhile is_alpha rest"
    unfolding match_dot_letters by (cases "drop jd s2") (auto split: if_splits)
  from take_takeWhile_all[OF jd(2)] have d: "list_all is_domain_char (take jd s2)"
    "length (take jd s2) = jd" by auto
  have s2_eq: "s2 = take jd s2 @ CHR ''.'' # rest" using rest(1) by (metis append_take_drop_id)
  have maxd: "\<forall>d' rest'. take jd s2 @ CHR ''.'' # rest = d' @ CHR ''.'' # rest' \<and>
      list_all is_domain_char d' \<and> length (take jd s2) < length d' \<longrightarrow>
      length (takeWhile is_alpha rest') < 2"
  proof (intro allI impI)
    fix d' rest'
    assume a: "take jd s2 @ CHR ''.'' # rest = d' @ CHR ''.'' # rest' \<and>
      list_all is_domain_char d' \<and> length (take jd s2) < length d'"
    then have e: "s2 = d' @ CHR ''.'' # rest'" using s2_eq by simp
    have "length d' \<le> ?KD"
      using all_prefix_takeWhile[of is_domain_char d' "CHR ''.'' # rest'"] a e by simp
    with a d(2) mx have "?g (length d') = None" by simp
    then have "match_here [Ch CHR ''.'', Rep is_alpha 2] (CHR ''.'' # rest') = None"
      using e by simp
    then show "length (takeWhile is_alpha rest') < 2"
      unfolding match_dot_letters by (simp split: if_splits)
  qed
  have "s = take j s @ CHR ''@'' # take jd s2 @ CHR ''.'' # rest \<and>
     take j s \<noteq> [] \<and> list_all is_local_char (take j s) \<and> take jd s2 \<noteq> [] \<and>
     list_all is_domain_char (take jd s2) \<and>
     2 \<le> length (takeWhile is_alpha rest) \<and>
     m = take j s @ CHR ''@'' # take jd s2 @ CHR ''.'' # takeWhile is_alpha rest \<and>
     (\<forall>d' rest'. take jd s2 @ CHR ''.'' # rest = d' @ CHR ''.'' # rest' \<and>
        list_all is_domain_char d' \<and>
        length (take jd s2) < length d' \<longrightarrow> length (takeWhile is_alpha rest') < 2)"
  proof (intro conjI)
    show "s = take j s @ CHR ''@'' # take jd s2 @ CHR ''.'' # rest"
      using s_eq s2_eq by simp
    show "take j s \<noteq> []" using l(2) j(1) by auto
    show "take jd s2 \<noteq> []" using d(2) jd(1) by auto
    show "m = take j s @ CHR ''@'' # take jd s2 @ CHR ''.'' # takeWhile is_alpha rest"
      using m1(2) s2(2) m3(2) rest(3) by simp
  qed (use l d rest maxd in simp_all)
  then show ?thesis by (intro exI)
qed

lemma letters_before_dot:
  assumes "t' @ v' = x @ CHR ''.'' # rest" "list_all is_alpha t'"
  shows "length t' \<le> length x"
proof (rule ccontr)
  assume "\<not> length t' \<le> length x"
  then have lt: "length x < length t'" by simp
  then have "(t' @ v') ! length x = t' ! length x" by (simp add: nth_append)
  moreover have "(x @ CHR ''.'' # rest) ! length x = CHR ''.''" by simp
  ultimately have "t' ! length x = CHR ''.''" using assms(1) by simp
  moreover have "is_alpha (t' ! length x)"
    using assms(2) lt by (simp add: list_all_length)
  ultimately show False using not_alpha_dot by simp
qed

lemma email_match_longest:
  assumes "match_here EMAIL_PATTERN (w' @ v') = Some m" "email_shaped w'"
  shows "length w' \<le> length m"
proof -
  from email_match_shape[OF assms(1)] obtain l d rest where
    s: "w' @ v' = l @ CHR ''@'' # d @ CHR ''.'' # rest"
    and l: "l \<noteq> []" "list_all is_local_char l"
    and d: "d \<noteq> []" "list_all is_domain_char d"
    and t: "2 \<le> length (takeWhile is_alpha rest)"
    and m: "m = l @ CHR ''@'' # d @ CHR ''.'' # takeWhile is_alpha rest"
    and mx: "\<forall>d' rest'. d @ CHR ''.'' # rest = d' @ CHR ''.'' # rest' \<and>
        list_all is_domain_char d' \<and>
        length d < length d' \<longrightarrow> length (takeWhile is_alpha rest') < 2"
    by blast
  from assms(2) obtain l' d' t' where
    w: "w' = l' @ ''@'' @ d' @ ''.'' @ t'" "l' \<noteq> []" "list_all is_local_char l'"
    "d' \<noteq> []" "list_all is_domain_char d'" "2 \<le> length t'" "list_all is_alpha t'"
    unfolding email_shaped_def by blast
  have eq: "l @ CHR ''@'' # d @ CHR ''.'' # rest = l' @ CHR ''@'' # d' @ CHR ''.'' # (t' @ v')"
    using s w(1) by simp
  have "takeWhile is_local_char (l @ CHR ''@'' # d @ CHR ''.'' # rest) = l"
    using l(2) not_local_at by (rule takeWhile_stop)
  moreover have "takeWhile is_local_char (l' @ CHR ''@'' # d' @ CHR ''.'' # (t' @ v')) = l'"
    using w(3) not_local_at by (rule takeWhile_stop)
  ultimately have ll: "l' = l" using eq by simp
  with eq have eq2: "d @ CHR ''.'' # rest = d' @ CHR ''.'' # (t' @ v')" by simp
  have tl: "length t' \<le> length (takeWhile is_alpha (t' @ v'))"
    using w(7) by (rule all_prefix_takeWhile)
  have nd: "\<not> length d < length d'"
  proof
    assume "length d < length d'"
    with mx eq2 w(5) have "length (takeWhile is_alpha (t' @ v')) < 2" by blast
    with tl w(6) show False by simp
  qed
  have len_w: "length w' = length l + 1 + length d' + 1 + length t'"
    using w(1) ll by simp
  have len_m: "length m = length l + 1 + length d + 1 + length (takeWhile is_alpha rest)"
    using m by simp
  show ?thesis
  proof (cases "length d' = length d")
    case True
    with eq2 have "d' = d" "rest = t' @ v'" by auto
    with tl show ?thesis using len_w len_m by simp
  next
    case False
    with nd have lt: "length d' < length d" by simp
    from eq2 have "d' @ CHR ''.'' # (t' @ v') = d @ CHR ''.'' # rest" by simp
    then obtain x where x: "d = d' @ x" "CHR ''.'' # (t' @ v') = x @ CHR ''.'' # rest"
      using lt by (auto simp: append_eq_append_conv2)
    from x(1) lt have "x \<noteq> []" by auto
    with x(2) obtain x' where x': "x = CHR ''.'' # x'" "t' @ v' = x' @ CHR ''.'' # rest"
      by (cases x) auto
    from letters_before_dot[OF x'(2) w(7)] have "length t' \<le> length x'" .
    with x(1) x'(1) show ?thesis using len_w len_m by simp
  qed
qed

text \<open>
  Claim C7. \<open>extract_email_from_affil\<close> returns \<open>None\<close> exactly when no part of the
  text is e-mail-shaped. When it returns a match, the match is e-mail-shaped, it is a part
  of the text that starts at the first position where any e-mail-shaped part starts, and
  no e-mail-shaped part that starts there is longer: the greedy repetitions of the pattern
  take the longest domain and the longest final run of letters. This fixes the result.
\<close>

theorem extract_email_from_affil_first_match:
  "(extract_email_from_affil s = None \<longleftrightarrow> \<not> (\<exists>u w v. s = u @ w @ v \<and> email_shaped w)) \<and>
   (\<forall>m. extract_email_from_affil s = Some m \<longrightarrow>
      email_shaped m \<and>
      (\<exists>u v. s = u @ m @ v \<and>
         (\<forall>u' w' v'. s = u' @ w' @ v' \<and> email_shaped w' \<longrightarrow>
            length u < length u' \<or> (length u' = length u \<and> length w' \<le> length m))))"
proof (intro conjI allI impI)
  show "extract_email_from_affil s = None \<longleftrightarrow> \<not> (\<exists>u w v. s = u @ w @ v \<and> email_shaped w)"
  proof
    assume n: "extract_email_from_affil s = None"
    show "\<not> (\<exists>u w v. s = u @ w @ v \<and> email_shaped w)"
    proof
      assume "\<exists>u w v. s = u @ w @ v \<and> email_shaped w"
      then obtain u w v where uwv: "s = u @ w @ v" "email_shaped w" by blast
      from n have "match_here EMAIL_PATTERN (w @ v) = None"
        using uwv(1) re_search_None[of EMAIL_PATTERN s]
        unfolding extract_email_from_affil_def by simp
      moreover have "match_here EMAIL_PATTERN (w @ v) \<noteq> None"
        using uwv(2) by (simp only: match_here_complete matches_EMAIL_PATTERN not_False_eq_True)
      ultimately show False by simp
    qed
  next
    assume ne: "\<not> (\<exists>u w v. s = u @ w @ v \<and> email_shaped w)"
    show "extract_email_from_affil s = None"
    proof (rule ccontr)
      assume "extract_email_from_affil s \<noteq> None"
      then obtain m where "re_search EMAIL_PATTERN s = Some m"
        unfolding extract_email_from_affil_def by auto
      from re_search_Some[OF this] obtain u t where ut: "s = u @ t" "match_here EMAIL_PATTERN t = Some m"
        by auto
      from match_here_sound[OF ut(2)] have "prefix m t" "email_shaped m"
        by (simp_all add: matches_EMAIL_PATTERN)
      then obtain v where "t = m @ v" by (auto simp: prefix_def)
      with ut(1) have "s = u @ m @ v" by simp
      with \<open>email_shaped m\<close> ne show False by blast
    qed
  qed
next
  fix m assume "extract_email_from_affil s = Some m"
  then have rs: "re_search EMAIL_PATTERN s = Some m" by (simp add: extract_email_from_affil_def)
  from re_search_Some[OF rs] obtain u t where ut: "s = u @ t" "match_here EMAIL_PATTERN t = Some m"
    and first: "\<And>u' t'. s = u' @ t' \<Longrightarrow> length u' < length u \<Longrightarrow> match_here EMAIL_PATTERN t' = None"
    by auto
  from match_here_sound[OF ut(2)] have pm: "prefix m t" and em: "email_shaped m"
    by (simp_all add: matches_EMAIL_PATTERN)
  show "email_shaped m" by (rule em)
  from pm obtain v where v: "t = m @ v" by (auto simp: prefix_def)
  have "\<forall>u' w' v'. s = u' @ w' @ v' \<and> email_shaped w' \<longrightarrow>
     length u < length u' \<or> (length u' = length u \<and> length w' \<le> length m)"
  proof (intro allI impI)
    fix u' w' v' assume a: "s = u' @ w' @ v' \<and> email_shaped w'"
    have ne: "match_here EMAIL_PATTERN (w' @ v') \<noteq> None"
      using a by (simp only: match_here_complete matches_EMAIL_PATTERN not_False_eq_True)
    have ge: "\<not> length u' < length u"
    proof
      assume "length u' < length u"
      with a first[of u' "w' @ v'"] have "match_here EMAIL_PATTERN (w' @ v') = None" by simp
      with ne show False by simp
    qed
    show "length u < length u' \<or> (length u' = length u \<and> length w' \<le> length m)"
    proof (cases "length u' = length u")
      case True
      with a ut(1) have "u' = u" "t = w' @ v'" by auto
      with ut(2) have "match_here EMAIL_PATTERN (w' @ v') = Some m" by simp
      from email_match_longest[OF this] a have "length w' \<le> length m" by simp
      with True show ?thesis by simp
    next
      case False
      with ge show ?thesis by simp
    qed
  qed
  moreover have "s = u @ m @ v" using ut(1) v by simp
  ultimately have "s = u @ m @ v \<and>
     (\<forall>u' w' v'. s = u' @ w' @ v' \<and> email_shaped w' \<longrightarrow>
        length u < length u' \<or> (length u' = length u \<and> length w' \<le> length m))" by simp
  then show "\<exists>u v. s = u @ m @ v \<and>
         (\<forall>u' w' v'. s = u' @ w' @ v' \<and> email_shaped w' \<longrightarrow>
            length u < length u' \<or> (length u' = length u \<and> length w' \<le> length m))"
    by (intro exI)
qed

theorem extract_email_from_affil_first_match_witness:
  "extract_email_from_affil ''Acme Pharma Inc, contact: jane@acme.com or bob@acme.org'' =
     Some ''jane@acme.com'' \<and>
   email_shaped ''jane@acme.com'' \<and>
   extract_email_from_affil ''write to x@a.bc.de.'' = Some ''x@a.bc.de'' \<and>
   email_shaped ''x@a.bc.de'' \<and>
   extract_email_from_affil ''Acme Pharma Inc, no address'' = None \<and>
   \<not> (\<exists>u w v. ''Acme Pharma Inc, no address'' = u @ w @ v \<and> email_shaped w)"
proof -
  have e1: "extract_email_from_affil ''Acme Pharma Inc, contact: jane@acme.com or bob@acme.org'' =
     Some ''jane@acme.com''"
    by code_simp
  have e2: "extract_email_from_affil ''Acme Pharma Inc, no address'' = None"
    by code_simp
  have e3: "extract_email_from_affil ''write to x@a.bc.de.'' = Some ''x@a.bc.de''"
    by code_simp
  note c1 = extract_email_from_affil_first_match
    [of "''Acme Pharma Inc, contact: jane@acme.com or bob@acme.org''",
     THEN conjunct2, rule_format, OF e1, THEN conjunct1]
  note c2 = extract_email_from_affil_first_match
    [of "''Acme Pharma Inc, no address''", THEN conjunct1, THEN iffD1, OF e2]
  note c3 = extract_email_from_affil_first_match
    [of "''write to x@a.bc.de.''", THEN conjunct2, rule_format, OF e3, THEN conjunct1]
  show ?thesis by (intro conjI) (rule e1 c1 e2 c2 e3 c3)+
qed

subsection \<open>Resolvers\<close>

lemma bind_exn_simps [simp]:
  "bind_exn (Inl e) f = Inl e"
  "bind_exn (Inr x) f = f x"
  by (simp_all add: bind_exn_def)

text \<open>
  Claim C5. Each of the three resolvers returns a value and never an exception, whatever
  the service does. It returns \<^verbatim>\<open>None\<close> when the request fails, when the status is not
  200, when the body does not decode, and whenever anything inside its \<^verbatim>\<open>try\<close> block
  raises.
\<close>

theorem resolvers_never_raise:
  "(\<exists>v. fst (get_email_from_crossref env doi log) = Inr v) \<and>
   (\<exists>v. fst (get_email_from_europepmc env pmid log) = Inr v) \<and>
   (\<exists>v. fst (get_email_from_europepmc_emails_endpoint env pmid log) = Inr v) \<and>
   ((env log (CrossRef doi) = Connection_failed \<or>
     (\<exists>status body. env log (CrossRef doi) = Response status body \<and>
        (status \<noteq> 200 \<or> (\<exists>e. resp_json body = Inl e))) \<or>
     (\<exists>e. get_email_from_crossref_try env doi log = Inl e)) \<longrightarrow>
      fst (get_email_from_crossref env doi log) = Inr JNull) \<and>
   ((env log (EuropePMC_search pmid) = Connection_failed \<or>
     (\<exists>status body. env log (EuropePMC_search pmid) = Response status body \<and>
        (status \<noteq> 200 \<or> (\<exists>e. resp_json body = Inl e))) \<or>
     (\<exists>e. get_email_from_europepmc_try env pmid log = Inl e)) \<longrightarrow>
      fst (get_email_from_europepmc env pmid log) = Inr JNull) \<and>
   ((env log (EuropePMC_emails pmid) = Connection_failed \<or>
     (\<exists>status body. env log (EuropePMC_emails pmid) = Response status body \<and>
        (status \<noteq> 200 \<or> (\<exists>e. resp_json body = Inl e))) \<or>
     (\<exists>e. get_email_from_europepmc_emails_endpoint_try env pmid log = Inl e)) \<longrightarrow>
      fst (get_email_from_europepmc_emails_endpoint env pmid log) = Inr JNull)"
proof (intro conjI impI)
  show "\<exists>v. fst (get_email_from_crossref env doi log) = Inr v"
    by (simp add: get_email_from_crossref_def split: sum.split)
  show "\<exists>v. fst (get_email_from_europepmc env pmid log) = Inr v"
    by (simp add: get_email_from_europepmc_def split: sum.split)
  show "\<exists>v. fst (get_email_from_europepmc_emails_endpoint env pmid log) = Inr v"
    by (simp add: get_email_from_europepmc_emails_endpoint_def split: sum.split)
next
  assume "env log (CrossRef doi) = Connection_failed \<or>
     (\<exists>status body. env log (CrossRef doi) = Response status body \<and>
        (status \<noteq> 200 \<or> (\<exists>e. resp_json body = Inl e))) \<or>
     (\<exists>e. get_email_from_crossref_try env doi log = Inl e)"
  then show "fst (get_email_from_crossref env doi log) = Inr JNull"
    by (auto simp: get_email_from_crossref_def get_email_from_crossref_try_def split: sum.split if_splits)
next
  assume "env log (EuropePMC_search pmid) = Connection_failed \<or>
     (\<exists>status body. env log (EuropePMC_search pmid) = Response status body \<and>
        (status \<noteq> 200 \<or> (\<exists>e. resp_json body = Inl e))) \<or>
     (\<exists>e. get_email_from_europepmc_try env pmid log = Inl e)"
  then show "fst (get_email_from_europepmc env pmid log) = Inr JNull"
    by (auto simp: get_email_from_europepmc_def get_email_from_europepmc_try_def split: sum.split if_splits)
next
  assume "env log (EuropePMC_emails pmid) = Connection_failed \<or>
     (\<exists>status body. env log (EuropePMC_emails pmid) = Response status body \<and>
        (status \<noteq> 200 \<or> (\<exists>e. resp_json body = Inl e))) \<or>
     (\<exists>e. get_email_from_europepmc_emails_endpoint_try env pmid log = Inl e)"
  then show "fst (get_email_from_europepmc_emails_endpoint env pmid log) = Inr JNull"
    by (auto simp: get_email_from_europepmc_emails_endpoint_def
        get_email_from_europepmc_emails_endpoint_try_def split: sum.split if_splits)
qed

theorem resolvers_never_raise_witness:
  "fst (get_email_from_crossref broken ''10.1000/xyz'' []) = Inr JNull \<and>
   fst (get_email_from_europepmc broken ''31452104'' []) = Inr JNull \<and>
   fst (get_email_from_europepmc_emails_endpoint broken ''31452104'' []) = Inr JNull"
proof -
  have h1: "broken [] (CrossRef ''10.1000/xyz'') = Connection_failed \<or>
     (\<exists>status body. broken [] (CrossRef ''10.1000/xyz'') = Response status body \<and>
        (status \<noteq> 200 \<or> (\<exists>e. resp_json body = Inl e))) \<or>
     (\<exists>e. get_email_from_crossref_try broken ''10.1000/xyz'' [] = Inl e)"
    by (simp add: broken_def)
  have h2: "broken [] (EuropePMC_search ''31452104'') = Connection_failed \<or>
     (\<exists>status body. broken [] (EuropePMC_search ''31452104'') = Response status body \<and>
        (status \<noteq> 200 \<or> (\<exists>e. resp_json body = Inl e))) \<or>
     (\<exists>e. get_email_from_europepmc_try broken ''31452104'' [] = Inl e)"
    by (simp add: broken_def)
  have h3: "broken [] (EuropePMC_emails ''31452104'') = Connection_failed \<or>
     (\<exists>status body. broken [] (EuropePMC_emails ''31452104'') = Response status body \<and>
        (status \<noteq> 200 \<or> (\<exists>e. resp_json body = Inl e))) \<or>
     (\<exists>e. get_email_from_europepmc_emails_endpoint_try broken ''31452104'' [] = Inl e)"
    by (simp add: broken_def resp_json_def)
  note th = resolvers_never_raise[where env = broken and doi = "''10.1000/xyz''"
      and pmid = "''31452104''" and log = "[]"]
  note c1 = th[THEN conjunct2, THEN conjunct2, THEN conjunct2, THEN conjunct1, rule_format, OF h1]
  note c2 = th[THEN conjunct2, THEN conjunct2, THEN conjunct2, THEN conjunct2, THEN conjunct1,
      rule_format, OF h2]
  note c3 = th[THEN conjunct2, THEN conjunct2, THEN conjunct2, THEN conjunct2, THEN conjunct2,
      rule_format, OF h3]
  show ?thesis by (intro conjI) (rule c1 c2 c3)+
qed

subsection \<open>The loop over the authors\<close>

lemma affil_step_names:
  "non_acad_authors (affil_step L author sc affil) =
     non_acad_authors sc @
       (if is_non_academic_affiliation L (Some affil) then [extract_author_name author] else [])"
  by (simp add: affil_step_def Let_def)

lemma affil_step_affils:
  "company_affils (affil_step L author sc affil) =
     company_affils sc @ (if is_non_academic_affiliation L (Some affil) then [affil] else [])"
  by (simp add: affil_step_def Let_def)

lemma foldl_affil_step_names:
  "non_acad_authors (foldl (affil_step L author) sc affils) =
     non_acad_authors sc @
       map (\<lambda>a. extract_author_name author)
         (filter (\<lambda>a. is_non_academic_affiliation L (Some a)) affils)"
  by (induction affils arbitrary: sc) (simp_all add: affil_step_names)

lemma foldl_affil_step_affils:
  "company_affils (foldl (affil_step L author) sc affils) =
     company_affils sc @ filter (\<lambda>a. is_non_academic_affiliation L (Some a)) affils"
  by (induction affils arbitrary: sc) (simp_all add: affil_step_affils)

lemma author_step_names:
  "non_acad_authors (author_step L sc author) =
     non_acad_authors sc @
       map (\<lambda>a. extract_author_name author)
         (filter (\<lambda>a. is_non_academic_affiliation L (Some a)) (author_affils author))"
  by (simp add: author_step_def Let_def foldl_affil_step_names)

lemma author_step_affils:
  "company_affils (author_step L sc author) =
     company_affils sc @
       filter (\<lambda>a. is_non_academic_affiliation L (Some a)) (author_affils author)"
  by (simp add: author_step_def Let_def foldl_affil_step_affils)

lemma foldl_author_step_names:
  "non_acad_authors (foldl (author_step L) sc authors) =
     non_acad_authors sc @
       concat (map (\<lambda>author. map (\<lambda>a. extract_author_name author)
         (filter (\<lambda>a. is_non_academic_affiliation L (Some a)) (author_affils author))) authors)"
  by (induction authors arbitrary: sc) (simp_all add: author_step_names)

lemma foldl_author_step_affils:
  "company_affils (foldl (author_step L) sc authors) =
     company_affils sc @
       concat (map (\<lambda>author.
         filter (\<lambda>a. is_non_academic_affiliation L (Some a)) (author_affils author)) authors)"
  by (induction authors arbitrary: sc) (simp_all add: author_step_affils)

lemma scan_authors_names:
  "non_acad_authors (scan_authors L info) =
     concat (map (\<lambda>author. map (\<lambda>a. extract_author_name author)
       (filter (\<lambda>a. is_non_academic_affiliation L (Some a)) (author_affils author)))
       (article_authors info))"
  by (simp add: scan_authors_def foldl_author_step_names empty_scan_def)

lemma scan_authors_affils:
  "company_affils (scan_authors L info) =
     concat (map (\<lambda>author.
       filter (\<lambda>a. is_non_academic_affiliation L (Some a)) (author_affils author))
       (article_authors info))"
  by (simp add: scan_authors_def foldl_author_step_affils empty_scan_def)

lemma zip_concat_map:
  "zip (concat (map (\<lambda>x. map (\<lambda>a. f x) (g x)) xs)) (concat (map g xs)) =
     concat (map (\<lambda>x. map (\<lambda>a. (f x, a)) (g x)) xs)"
proof (induction xs)
  case Nil
  then show ?case by simp
next
  case (Cons x xs)
  have "zip (map (\<lambda>a. f x) (g x)) (g x) = map (\<lambda>a. (f x, a)) (g x)"
    by (induction "g x") (simp_all add: zip_map1 zip_same_conv_map)
  with Cons show ?case by (simp add: zip_append)
qed

lemma scan_authors_empty_iff:
  "non_acad_authors (scan_authors L info) = [] \<longleftrightarrow>
     \<not> list_ex (\<lambda>author. list_ex (\<lambda>affil. is_non_academic_affiliation L (Some affil))
                     (author_affils author)) (article_authors info)"
  by (auto simp: scan_authors_names list_ex_iff filter_empty_conv)

subsection \<open>Parser\<close>

lemma resolver_results:
  "get_email_from_crossref env d log =
     (Inr (projr (fst (get_email_from_crossref env d log))), log @ [Get (CrossRef d)])"
  "get_email_from_europepmc env p log =
     (Inr (projr (fst (get_email_from_europepmc env p log))), log @ [Get (EuropePMC_search p)])"
  "get_email_from_europepmc_emails_endpoint env p log =
     (Inr (projr (fst (get_email_from_europepmc_emails_endpoint env p log))),
      log @ [Get (EuropePMC_emails p)])"
  by (simp_all add: get_email_from_crossref_def get_email_from_europepmc_def
      get_email_from_europepmc_emails_endpoint_def split: sum.split)

lemma run_resolver_crossref:
  "run_resolver (get_email_from_crossref env d) g cur log =
     (if g then (Inr (projr (fst (get_email_from_crossref env d log))),
                 log @ [Get (CrossRef d), Sleep_resolver])
      else (Inr cur, log))"
  unfolding run_resolver_def by (subst resolver_results(1)) simp

lemma run_resolver_europepmc:
  "run_resolver (get_email_from_europepmc env p) g cur log =
     (if g then (Inr (projr (fst (get_email_from_europepmc env p log))),
                 log @ [Get (EuropePMC_search p), Sleep_resolver])
      else (Inr cur, log))"
  unfolding run_resolver_def by (subst resolver_results(2)) simp

lemma run_resolver_emails:
  "run_resolver (get_email_from_europepmc_emails_endpoint env p) g cur log =
     (if g then (Inr (projr (fst (get_email_from_europepmc_emails_endpoint env p log))),
                 log @ [Get (EuropePMC_emails p), Sleep_resolver])
      else (Inr cur, log))"
  unfolding run_resolver_def by (subst resolver_results(3)) simp

lemma resolve_email_inline:
  "resolve_email L env article medline (e # es) log = (Inr (JStr e), log)"
  by (simp add: resolve_email_def)

lemma resolve_email_never_raises:
  "\<exists>v log'. resolve_email L env article medline emails log = (Inr v, log')"
proof (cases emails)
  case Nil
  then show ?thesis
    by (simp add: resolve_email_def Let_def run_resolver_crossref run_resolver_europepmc
        run_resolver_emails)
next
  case (Cons e es)
  then show ?thesis by (simp add: resolve_email_inline)
qed

lemma parse_no_info:
  "article_info_of article = None \<Longrightarrow> parse_pubmed_article L env article log = (Inr None, log)"
proof (cases "find_tag ''MedlineCitation'' article")
  case None
  then show ?thesis by (simp add: parse_pubmed_article_def)
next
  case (Some medline)
  assume "article_info_of article = None"
  with Some have "find_tag ''Article'' medline = None" by (simp add: article_info_of_def)
  with Some show ?thesis by (simp add: parse_pubmed_article_def)
qed

lemma article_info_ofD:
  "article_info_of article = Some info \<Longrightarrow>
     \<exists>medline. find_tag ''MedlineCitation'' article = Some medline \<and>
       find_tag ''Article'' medline = Some info"
  by (cases "find_tag ''MedlineCitation'' article") (simp_all add: article_info_of_def)

lemma parse_no_author:
  assumes "article_info_of article = Some info" "non_acad_authors (scan_authors L info) = []"
  shows "parse_pubmed_article L env article log = (Inr None, log)"
proof -
  from article_info_ofD[OF assms(1)] obtain medline where
    "find_tag ''MedlineCitation'' article = Some medline" "find_tag ''Article'' medline = Some info"
    by blast
  with assms(2) show ?thesis by (simp add: parse_pubmed_article_def Let_def)
qed

lemma parse_record:
  assumes "article_info_of article = Some info"
    and "non_acad_authors (scan_authors L info) \<noteq> []"
  shows "\<exists>medline v log'.
     find_tag ''MedlineCitation'' article = Some medline \<and>
     find_tag ''Article'' medline = Some info \<and>
     resolve_email L env article medline (possible_emails (scan_authors L info)) log =
       (Inr v, log') \<and>
     parse_pubmed_article L env article log =
       (Inr (Some \<lparr>PubmedID = findtext ''PMID'' medline,
          Title = (case find_tag ''ArticleTitle'' info of
                     Some title_elem \<Rightarrow> str_strip L (concat (itertext title_elem))
                   | None \<Rightarrow> []),
          Publication_Date = extract_pub_date info,
          Non_academic_Authors = join ''; '' (non_acad_authors (scan_authors L info)),
          Company_Affiliations = join ''; '' (company_affils (scan_authors L info)),
          Corresponding_Author_Email = (if py_truthy v then v else JStr [])\<rparr>), log')"
proof -
  from article_info_ofD[OF assms(1)] obtain medline where
    m: "find_tag ''MedlineCitation'' article = Some medline"
    "find_tag ''Article'' medline = Some info"
    by blast
  obtain v log' where r: "resolve_email L env article medline
      (possible_emails (scan_authors L info)) log = (Inr v, log')"
    using resolve_email_never_raises by blast
  show ?thesis
    using m r assms(2) by (simp add: parse_pubmed_article_def Let_def)
qed

lemma has_non_academic_author_iff:
  "has_non_academic_author L article \<longleftrightarrow>
     (\<exists>info. article_info_of article = Some info \<and> non_acad_authors (scan_authors L info) \<noteq> [])"
  by (auto simp: has_non_academic_author_def scan_authors_empty_iff split: option.splits)

lemma parse_Some_iff:
  "(\<exists>r. fst (parse_pubmed_article L env article log) = Inr (Some r)) \<longleftrightarrow>
     has_non_academic_author L article"
proof (cases "article_info_of article")
  case None
  then show ?thesis by (simp add: parse_no_info has_non_academic_author_iff)
next
  case (Some info)
  show ?thesis
  proof (cases "non_acad_authors (scan_authors L info) = []")
    case True
    with Some show ?thesis by (simp add: parse_no_author has_non_academic_author_iff)
  next
    case False
    from parse_record[OF Some False, of env log] obtain r log' where
      "parse_pubmed_article L env article log = (Inr (Some r), log')" by blast
    then have "\<exists>r. fst (parse_pubmed_article L env article log) = Inr (Some r)" by simp
    with Some False show ?thesis by (simp add: has_non_academic_author_iff)
  qed
qed

lemma parse_never_raises:
  "\<exists>out log'. parse_pubmed_article L env article log = (Inr out, log')"
proof (cases "article_info_of article")
  case None
  then show ?thesis by (simp add: parse_no_info)
next
  case (Some info)
  show ?thesis
  proof (cases "non_acad_authors (scan_authors L info) = []")
    case True
    with Some show ?thesis by (simp add: parse_no_author)
  next
    case False
    from parse_record[OF Some False, of env log] show ?thesis by blast
  qed
qed

lemma three_authors_parse:
  "parse_pubmed_article ascii_lib offline (example_article ''1'' three_authors []) [] =
     (Inr (Some \<lparr>PubmedID = Some ''1'', Title = ''A study'', Publication_Date = [],
        Non_academic_Authors = ''Doe, J; Poe, E'',
        Company_Affiliations =
          ''Acme Pharma Inc. Corresponding author: jane@acme.com; Beta Biotech Ltd. Corresponding author: poe@beta.com'',
        Corresponding_Author_Email = JStr ''poe@beta.com''\<rparr>), [])"
  by code_simp

subsection \<open>Candidate e-mails\<close>

lemma extract_email_nonempty:
  assumes "extract_email_from_affil a = Some e"
  shows "e \<noteq> []"
proof -
  from assms have "re_search EMAIL_PATTERN a = Some e" by (simp add: extract_email_from_affil_def)
  from re_search_Some[OF this] obtain t where "match_here EMAIL_PATTERN t = Some e" by blast
  from match_here_sound[OF this] have "email_shaped e" by (simp add: matches_EMAIL_PATTERN)
  then show ?thesis by (auto simp: email_shaped_def)
qed

lemma truthy_extract_email:
  "truthy (extract_email_from_affil a) \<longleftrightarrow> extract_email_from_affil a \<noteq> None"
  by (cases "extract_email_from_affil a") (simp_all add: truthy_def extract_email_nonempty)

lemma affil_step_emails:
  "\<exists>rest. possible_emails (affil_step L author sc a) =
     (if corresponding_affil L a then [str_of (extract_email_from_affil a)] else []) @
     possible_emails sc @ rest"
proof (cases "is_non_academic_affiliation L (Some a) \<and> extract_email_from_affil a \<noteq> None")
  case False
  then have "possible_emails (affil_step L author sc a) =
     (if corresponding_affil L a then [str_of (extract_email_from_affil a)] else []) @
     possible_emails sc @ []"
    by (auto simp: affil_step_def Let_def corresponding_affil_def truthy_def)
  then show ?thesis by (rule exI)
next
  case True
  show ?thesis
  proof (cases "str_contains (str_lower L a) ''corresponding''")
    case c: True
    with True have "possible_emails (affil_step L author sc a) =
       (if corresponding_affil L a then [str_of (extract_email_from_affil a)] else []) @
       possible_emails sc @ []"
      by (simp add: affil_step_def Let_def corresponding_affil_def truthy_extract_email)
    then show ?thesis by (rule exI)
  next
    case c: False
    with True have "possible_emails (affil_step L author sc a) =
       (if corresponding_affil L a then [str_of (extract_email_from_affil a)] else []) @
       possible_emails sc @ [str_of (extract_email_from_affil a)]"
      by (simp add: affil_step_def Let_def corresponding_affil_def truthy_extract_email)
    then show ?thesis by (rule exI)
  qed
qed

lemma foldl_affil_step_emails:
  "\<exists>rest. possible_emails (foldl (affil_step L author) sc affils) =
     rev (map (\<lambda>a. str_of (extract_email_from_affil a)) (filter (corresponding_affil L) affils)) @
     possible_emails sc @ rest"
proof (induction affils arbitrary: sc)
  case Nil
  then show ?case by simp
next
  case (Cons a affils)
  obtain r1 where r1: "possible_emails (affil_step L author sc a) =
     (if corresponding_affil L a then [str_of (extract_email_from_affil a)] else []) @
     possible_emails sc @ r1"
    using affil_step_emails by blast
  obtain r2 where r2: "possible_emails (foldl (affil_step L author) (affil_step L author sc a) affils) =
     rev (map (\<lambda>a. str_of (extract_email_from_affil a)) (filter (corresponding_affil L) affils)) @
     possible_emails (affil_step L author sc a) @ r2"
    using Cons.IH by blast
  have "possible_emails (foldl (affil_step L author) sc (a # affils)) =
     rev (map (\<lambda>a. str_of (extract_email_from_affil a))
       (filter (corresponding_affil L) (a # affils))) @ possible_emails sc @ (r1 @ r2)"
    using r1 r2 by simp
  then show ?case by (rule exI)
qed

lemma author_step_emails:
  "\<exists>rest. possible_emails (author_step L sc author) =
     rev (map (\<lambda>a. str_of (extract_email_from_affil a))
       (filter (corresponding_affil L) (author_affils author))) @
     possible_emails sc @ rest"
proof -
  let ?sc1 = "if truthy (email_from_identifier L author)
     then sc\<lparr>possible_emails := possible_emails sc @ [str_of (email_from_identifier L author)]\<rparr>
     else sc"
  have "possible_emails ?sc1 = possible_emails sc @
      (if truthy (email_from_identifier L author)
       then [str_of (email_from_identifier L author)] else [])"
    by simp
  then obtain r0 where r0: "possible_emails ?sc1 = possible_emails sc @ r0" by blast
  obtain r1 where r1: "possible_emails (foldl (affil_step L author) ?sc1 (author_affils author)) =
     rev (map (\<lambda>a. str_of (extract_email_from_affil a))
       (filter (corresponding_affil L) (author_affils author))) @ possible_emails ?sc1 @ r1"
    using foldl_affil_step_emails by blast
  have eq: "author_step L sc author = foldl (affil_step L author) ?sc1 (author_affils author)"
    by (simp add: author_step_def Let_def)
  have "possible_emails (author_step L sc author) =
     rev (map (\<lambda>a. str_of (extract_email_from_affil a))
       (filter (corresponding_affil L) (author_affils author))) @ possible_emails sc @ (r0 @ r1)"
    unfolding eq r1 r0 by simp
  then show ?thesis by (rule exI)
qed

lemma foldl_author_step_emails:
  "\<exists>rest. possible_emails (foldl (author_step L) sc authors) =
     rev (map (\<lambda>a. str_of (extract_email_from_affil a))
       (filter (corresponding_affil L) (concat (map author_affils authors)))) @
     possible_emails sc @ rest"
proof (induction authors arbitrary: sc)
  case Nil
  then show ?case by simp
next
  case (Cons author authors)
  obtain r1 where r1: "possible_emails (author_step L sc author) =
     rev (map (\<lambda>a. str_of (extract_email_from_affil a))
       (filter (corresponding_affil L) (author_affils author))) @ possible_emails sc @ r1"
    using author_step_emails by blast
  obtain r2 where r2: "possible_emails (foldl (author_step L) (author_step L sc author) authors) =
     rev (map (\<lambda>a. str_of (extract_email_from_affil a))
       (filter (corresponding_affil L) (concat (map author_affils authors)))) @
     possible_emails (author_step L sc author) @ r2"
    using Cons.IH by blast
  have "possible_emails (foldl (author_step L) sc (author # authors)) =
     rev (map (\<lambda>a. str_of (extract_email_from_affil a))
       (filter (corresponding_affil L) (concat (map author_affils (author # authors))))) @
     possible_emails sc @ (r1 @ r2)"
    using r1 r2 by simp
  then show ?case by (rule exI)
qed

lemma scan_authors_emails:
  "\<exists>rest. possible_emails (scan_authors L info) =
     rev (map (\<lambda>a. str_of (extract_email_from_affil a))
       (filter (corresponding_affil L) (article_affils info))) @ rest"
proof -
  obtain rest where "possible_emails (foldl (author_step L) empty_scan (article_authors info)) =
     rev (map (\<lambda>a. str_of (extract_email_from_affil a))
       (filter (corresponding_affil L) (concat (map author_affils (article_authors info))))) @
     possible_emails empty_scan @ rest"
    using foldl_author_step_emails by blast
  then have "possible_emails (scan_authors L info) =
     rev (map (\<lambda>a. str_of (extract_email_from_affil a))
       (filter (corresponding_affil L) (article_affils info))) @ rest"
    by (simp add: scan_authors_def article_affils_def empty_scan_def)
  then show ?thesis by (rule exI)
qed

lemma last_corresponding_affil_first:
  assumes "article_info_of article = Some info"
    and "article_affils info = pre @ a # post"
    and "corresponding_affil L a"
    and "\<forall>b\<in>set post. \<not> corresponding_affil L b"
    and "extract_email_from_affil a = Some e"
  shows "\<exists>r. parse_pubmed_article L env article log = (Inr (Some r), log) \<and>
     Corresponding_Author_Email r = JStr e"
proof -
  have post: "filter (corresponding_affil L) post = []"
    using assms(4) by (simp add: filter_empty_conv)
  obtain rest where "possible_emails (scan_authors L info) =
     rev (map (\<lambda>a. str_of (extract_email_from_affil a))
       (filter (corresponding_affil L) (article_affils info))) @ rest"
    using scan_authors_emails by blast
  then have pe: "possible_emails (scan_authors L info) =
     e # (rev (map (\<lambda>a. str_of (extract_email_from_affil a))
       (filter (corresponding_affil L) pre)) @ rest)"
    using assms(2,3,5) post by (simp add: str_of_def)
  have "a \<in> set (article_affils info)" using assms(2) by simp
  then obtain author where au: "author \<in> set (article_authors info)" "a \<in> set (author_affils author)"
    by (auto simp: article_affils_def)
  have na: "is_non_academic_affiliation L (Some a)"
    using assms(3) by (simp add: corresponding_affil_def)
  have ne: "non_acad_authors (scan_authors L info) \<noteq> []"
    unfolding scan_authors_empty_iff list_ex_iff using au na by blast
  from parse_record[OF assms(1) ne, of env log] obtain medline v log' where
    r: "resolve_email L env article medline (possible_emails (scan_authors L info)) log = (Inr v, log')"
    and p: "parse_pubmed_article L env article log =
       (Inr (Some \<lparr>PubmedID = findtext ''PMID'' medline,
          Title = (case find_tag ''ArticleTitle'' info of
                     Some title_elem \<Rightarrow> str_strip L (concat (itertext title_elem))
                   | None \<Rightarrow> []),
          Publication_Date = extract_pub_date info,
          Non_academic_Authors = join ''; '' (non_acad_authors (scan_authors L info)),
          Company_Affiliations = join ''; '' (company_affils (scan_authors L info)),
          Corresponding_Author_Email = (if py_truthy v then v else JStr [])\<rparr>), log')"
    by blast
  from r have v: "v = JStr e" "log' = log" unfolding pe resolve_email_inline by simp_all
  have "e \<noteq> []" using assms(5) by (rule extract_email_nonempty)
  with p v show ?thesis by simp
qed

subsection \<open>Embedded e-mails\<close>

lemma foldl_elec_addr_step:
  "foldl elec_addr_step cur xs =
     (if filter (\<lambda>x. truthy (elem_text x)) xs = [] then cur
      else elem_text (last (filter (\<lambda>x. truthy (elem_text x)) xs)))"
  by (induction xs rule: rev_induct) (simp_all add: elec_addr_step_def)

lemma affil_step_emails_mono:
  "set (possible_emails sc) \<subseteq> set (possible_emails (affil_step L author sc a))"
  by (auto simp: affil_step_def Let_def)

lemma foldl_affil_step_emails_mono:
  "set (possible_emails sc) \<subseteq> set (possible_emails (foldl (affil_step L author) sc affils))"
proof (induction affils arbitrary: sc)
  case Nil
  then show ?case by simp
next
  case (Cons a affils)
  from affil_step_emails_mono[of sc L author a] Cons.IH[of "affil_step L author sc a"]
  show ?case by auto
qed

lemma author_step_emails_mono:
  "set (possible_emails sc) \<subseteq> set (possible_emails (author_step L sc author))"
proof -
  let ?sc1 = "if truthy (email_from_identifier L author)
     then sc\<lparr>possible_emails := possible_emails sc @ [str_of (email_from_identifier L author)]\<rparr>
     else sc"
  have eq: "author_step L sc author = foldl (affil_step L author) ?sc1 (author_affils author)"
    by (simp add: author_step_def Let_def)
  have "set (possible_emails sc) \<subseteq> set (possible_emails ?sc1)" by auto
  with foldl_affil_step_emails_mono[of ?sc1 L author "author_affils author"]
  show ?thesis unfolding eq by blast
qed

lemma author_step_embedded:
  assumes "truthy (email_from_identifier L author)"
  shows "str_of (email_from_identifier L author) \<in> set (possible_emails (author_step L sc author))"
proof -
  let ?sc1 = "sc\<lparr>possible_emails := possible_emails sc @ [str_of (email_from_identifier L author)]\<rparr>"
  have eq: "author_step L sc author = foldl (affil_step L author) ?sc1 (author_affils author)"
    using assms by (simp add: author_step_def Let_def)
  have "str_of (email_from_identifier L author) \<in> set (possible_emails ?sc1)" by simp
  with foldl_affil_step_emails_mono[of ?sc1 L author "author_affils author"]
  show ?thesis unfolding eq by blast
qed

lemma foldl_author_step_emails_mono:
  "set (possible_emails sc) \<subseteq> set (possible_emails (foldl (author_step L) sc authors))"
proof (induction authors arbitrary: sc)
  case Nil
  then show ?case by simp
next
  case (Cons a authors)
  from author_step_emails_mono[of sc L a] Cons.IH[of "author_step L sc a"]
  show ?case by auto
qed

lemma foldl_author_step_embedded:
  assumes "author \<in> set authors" "truthy (email_from_identifier L author)"
  shows "str_of (email_from_identifier L author) \<in>
     set (possible_emails (foldl (author_step L) sc authors))"
  using assms(1)
proof (induction authors arbitrary: sc)
  case Nil
  then show ?case by simp
next
  case (Cons a authors)
  show ?case
  proof (cases "author = a")
    case True
    from author_step_embedded[OF assms(2), of sc]
      foldl_author_step_emails_mono[of "author_step L sc author" L authors]
    show ?thesis using True by auto
  next
    case False
    with Cons.prems have "author \<in> set authors" by simp
    from Cons.IH[OF this, of "author_step L sc a"] show ?thesis by simp
  qed
qed

lemma foldl_identifier_step:
  "foldl (identifier_step L) cur xs =
     (if filter (\<lambda>i. str_lower L (attrib_get i ''Source'' []) = ''email'' \<and>
                   truthy (elem_text i)) xs = [] then cur
      else elem_text (last (filter (\<lambda>i. str_lower L (attrib_get i ''Source'' []) = ''email'' \<and>
                   truthy (elem_text i)) xs)))"
  by (induction xs rule: rev_induct) (simp_all add: identifier_step_def)

lemma email_from_identifier_embedded:
  "email_from_identifier L author = embedded_email L author"
  by (simp add: email_from_identifier_def embedded_email_def foldl_elec_addr_step
      foldl_identifier_step electronic_addresses_def email_identifiers_def)

lemma last_filter: "filter P ys \<noteq> [] \<Longrightarrow> P (last (filter P ys))"
proof -
  assume "filter P ys \<noteq> []"
  then have "last (filter P ys) \<in> set (filter P ys)" by (rule last_in_set)
  then show ?thesis by simp
qed

lemma embedded_email_truthy:
  assumes "electronic_addresses author \<noteq> [] \<or> email_identifiers L author \<noteq> []"
  shows "truthy (embedded_email L author)"
proof (cases "electronic_addresses author \<noteq> []")
  case True
  then have "truthy (elem_text (last (electronic_addresses author)))"
    unfolding electronic_addresses_def by (rule last_filter)
  with True show ?thesis by (simp add: embedded_email_def)
next
  case False
  with assms have ne: "email_identifiers L author \<noteq> []" by simp
  then have "str_lower L (attrib_get (last (email_identifiers L author)) ''Source'' []) = ''email'' \<and>
     truthy (elem_text (last (email_identifiers L author)))"
    unfolding email_identifiers_def by (rule last_filter)
  with False ne show ?thesis by (simp add: embedded_email_def)
qed

text \<open>
  Claim C8. The embedded e-mail that the parser collects for an author is the one the
  specification describes: the text of the last \<^verbatim>\<open>ElectronicAddress\<close> child with text,
  and without such a child the text of the last \<^verbatim>\<open>Identifier\<close> child that is typed as
  e-mail and has text. So an e-mail identifier alone gives the identifier's value, and
  with both fields the electronic address overwrites it. For every author of the article
  with one of the two fields the embedded e-mail is in the candidate list, with no
  condition on how the author is classified.
\<close>

theorem electronic_address_wins_and_is_collected:
  "email_from_identifier L author = embedded_email L author \<and>
   (email_identifiers L author \<noteq> [] \<and> electronic_addresses author = [] \<longrightarrow>
      email_from_identifier L author = elem_text (last (email_identifiers L author))) \<and>
   (email_identifiers L author \<noteq> [] \<and> electronic_addresses author \<noteq> [] \<longrightarrow>
      email_from_identifier L author = elem_text (last (electronic_addresses author))) \<and>
   (findall_tag ''ElectronicAddress'' author = [elec_addr] \<and> truthy (elem_text elec_addr) \<longrightarrow>
      email_from_identifier L author = elem_text elec_addr) \<and>
   (author \<in> set (article_authors info) \<and>
    (electronic_addresses author \<noteq> [] \<or> email_identifiers L author \<noteq> []) \<longrightarrow>
      str_of (embedded_email L author) \<in> set (possible_emails (scan_authors L info))) \<and>
   (author \<in> set (article_authors info) \<and> truthy (email_from_identifier L author) \<longrightarrow>
      str_of (email_from_identifier L author) \<in> set (possible_emails (scan_authors L info)))"
proof (intro conjI impI)
  show "email_from_identifier L author = embedded_email L author"
    by (rule email_from_identifier_embedded)
next
  assume "email_identifiers L author \<noteq> [] \<and> electronic_addresses author = []"
  then show "email_from_identifier L author = elem_text (last (email_identifiers L author))"
    by (simp add: email_from_identifier_embedded embedded_email_def)
next
  assume "email_identifiers L author \<noteq> [] \<and> electronic_addresses author \<noteq> []"
  then show "email_from_identifier L author = elem_text (last (electronic_addresses author))"
    by (simp add: email_from_identifier_embedded embedded_email_def)
next
  assume "findall_tag ''ElectronicAddress'' author = [elec_addr] \<and> truthy (elem_text elec_addr)"
  then show "email_from_identifier L author = elem_text elec_addr"
    by (simp add: email_from_identifier_def elec_addr_step_def)
next
  assume a: "author \<in> set (article_authors info) \<and>
    (electronic_addresses author \<noteq> [] \<or> email_identifiers L author \<noteq> [])"
  then have "truthy (email_from_identifier L author)"
    by (simp add: email_from_identifier_embedded embedded_email_truthy)
  with a have "str_of (email_from_identifier L author) \<in>
      set (possible_emails (scan_authors L info))"
    unfolding scan_authors_def by (simp add: foldl_author_step_embedded)
  then show "str_of (embedded_email L author) \<in> set (possible_emails (scan_authors L info))"
    by (simp add: email_from_identifier_embedded)
next
  assume "author \<in> set (article_authors info) \<and> truthy (email_from_identifier L author)"
  then show "str_of (email_from_identifier L author) \<in> set (possible_emails (scan_authors L info))"
    unfolding scan_authors_def by (simp add: foldl_author_step_embedded)
qed

theorem electronic_address_wins_and_is_collected_witness:
  "email_identifiers ascii_lib author_with_addresses =
     [Element ''Identifier'' [(''Source'', ''Email'')] (Some ''id@x.edu'') None []] \<and>
   electronic_addresses author_with_addresses = [text_elem ''ElectronicAddress'' ''ea@x.edu''] \<and>
   email_from_identifier ascii_lib author_with_addresses = Some ''ea@x.edu'' \<and>
   email_identifiers ascii_lib author_with_identifier =
     [Element ''Identifier'' [(''Source'', ''EMAIL'')] (Some ''kim@y.edu'') None []] \<and>
   electronic_addresses author_with_identifier = [] \<and>
   email_from_identifier ascii_lib author_with_identifier = Some ''kim@y.edu'' \<and>
   \<not> is_non_academic_affiliation ascii_lib (Some ''University of X'') \<and>
   \<not> is_non_academic_affiliation ascii_lib (Some ''College of Y'') \<and>
   ''ea@x.edu'' \<in> set (possible_emails (scan_authors ascii_lib
      (example_info [author_with_addresses, author_with_identifier]))) \<and>
   ''kim@y.edu'' \<in> set (possible_emails (scan_authors ascii_lib
      (example_info [author_with_addresses, author_with_identifier])))"
proof -
  let ?info = "example_info [author_with_addresses, author_with_identifier]"
  have i1: "email_identifiers ascii_lib author_with_addresses =
     [Element ''Identifier'' [(''Source'', ''Email'')] (Some ''id@x.edu'') None []]"
    by code_simp
  have a1: "electronic_addresses author_with_addresses =
     [text_elem ''ElectronicAddress'' ''ea@x.edu'']"
    by code_simp
  have i2: "email_identifiers ascii_lib author_with_identifier =
     [Element ''Identifier'' [(''Source'', ''EMAIL'')] (Some ''kim@y.edu'') None []]"
    by code_simp
  have a2: "electronic_addresses author_with_identifier = []" by code_simp
  have m1: "author_with_addresses \<in> set (article_authors ?info)" by code_simp
  have m2: "author_with_identifier \<in> set (article_authors ?info)" by code_simp
  note th1 = electronic_address_wins_and_is_collected[where L = ascii_lib
      and author = author_with_addresses and info = ?info]
  note th2 = electronic_address_wins_and_is_collected[where L = ascii_lib
      and author = author_with_identifier and info = ?info]
  have h1: "email_identifiers ascii_lib author_with_addresses \<noteq> [] \<and>
     electronic_addresses author_with_addresses \<noteq> []"
    unfolding i1 a1 by simp
  have h2: "email_identifiers ascii_lib author_with_identifier \<noteq> [] \<and>
     electronic_addresses author_with_identifier = []"
    unfolding i2 a2 by simp
  have e1: "email_from_identifier ascii_lib author_with_addresses = Some ''ea@x.edu''"
    using th1[THEN conjunct2, THEN conjunct2, THEN conjunct1, rule_format, OF h1]
    unfolding a1 by (simp add: text_elem_def)
  have e2: "email_from_identifier ascii_lib author_with_identifier = Some ''kim@y.edu''"
    using th2[THEN conjunct2, THEN conjunct1, rule_format, OF h2]
    unfolding i2 by simp
  have g1: "author_with_addresses \<in> set (article_authors ?info) \<and>
     (electronic_addresses author_with_addresses \<noteq> [] \<or>
      email_identifiers ascii_lib author_with_addresses \<noteq> [])"
    using m1 h1 by simp
  have g2: "author_with_identifier \<in> set (article_authors ?info) \<and>
     (electronic_addresses author_with_identifier \<noteq> [] \<or>
      email_identifiers ascii_lib author_with_identifier \<noteq> [])"
    using m2 h2 by simp
  have c1: "''ea@x.edu'' \<in> set (possible_emails (scan_authors ascii_lib ?info))"
    using th1[THEN conjunct2, THEN conjunct2, THEN conjunct2, THEN conjunct2, THEN conjunct1,
        rule_format, OF g1]
    unfolding th1[THEN conjunct1, symmetric] e1 by (simp add: str_of_def)
  have c2: "''kim@y.edu'' \<in> set (possible_emails (scan_authors ascii_lib ?info))"
    using th2[THEN conjunct2, THEN conjunct2, THEN conjunct2, THEN conjunct2, THEN conjunct1,
        rule_format, OF g2]
    unfolding th2[THEN conjunct1, symmetric] e2 by (simp add: str_of_def)
  have n1: "\<not> is_non_academic_affiliation ascii_lib (Some ''University of X'')" by code_simp
  have n2: "\<not> is_non_academic_affiliation ascii_lib (Some ''College of Y'')" by code_simp
  show ?thesis by (intro conjI) (rule i1 a1 e1 i2 a2 e2 n1 n2 c1 c2)+
qed

subsection \<open>The choice of the corresponding e-mail\<close>

lemma if_text_truthy: "if_text x = (if truthy x then [str_of x] else [])"
  by (cases x) (simp_all add: if_text_def truthy_def str_of_def)

lemma affil_step_emails_exact:
  "possible_emails (affil_step L author sc a) =
     (if corresponding_affil L a then [str_of (extract_email_from_affil a)] else []) @
     possible_emails sc @
     (if plain_affil L a then [str_of (extract_email_from_affil a)] else [])"
proof (cases "is_non_academic_affiliation L (Some a) \<and> extract_email_from_affil a \<noteq> None")
  case False
  then show ?thesis
    by (auto simp: affil_step_def Let_def corresponding_affil_def plain_affil_def truthy_def)
next
  case True
  show ?thesis
  proof (cases "str_contains (str_lower L a) ''corresponding''")
    case c: True
    with True show ?thesis
      by (simp add: affil_step_def Let_def corresponding_affil_def plain_affil_def
          truthy_extract_email)
  next
    case c: False
    with True show ?thesis
      by (simp add: affil_step_def Let_def corresponding_affil_def plain_affil_def
          truthy_extract_email)
  qed
qed

lemma foldl_affil_step_emails_exact:
  "possible_emails (foldl (affil_step L author) sc affils) =
     rev (prioritised_emails L affils) @ possible_emails sc @
     map (\<lambda>a. str_of (extract_email_from_affil a)) (filter (plain_affil L) affils)"
proof (induction affils arbitrary: sc)
  case Nil
  then show ?case by (simp add: prioritised_emails_def)
next
  case (Cons a affils)
  show ?case
    by (simp add: Cons.IH affil_step_emails_exact prioritised_emails_def)
qed

lemma author_step_emails_exact:
  "possible_emails (author_step L sc author) =
     rev (prioritised_emails L (author_affils author)) @ possible_emails sc @
     appended_emails L author"
proof -
  let ?sc1 = "if truthy (email_from_identifier L author)
     then sc\<lparr>possible_emails := possible_emails sc @ [str_of (email_from_identifier L author)]\<rparr>
     else sc"
  have eq: "author_step L sc author = foldl (affil_step L author) ?sc1 (author_affils author)"
    by (simp add: author_step_def Let_def)
  have "possible_emails ?sc1 = possible_emails sc @ if_text (embedded_email L author)"
    by (simp add: if_text_truthy email_from_identifier_embedded)
  then show ?thesis
    unfolding eq foldl_affil_step_emails_exact by (simp add: appended_emails_def)
qed

lemma prioritised_emails_append:
  "prioritised_emails L (xs @ ys) = prioritised_emails L xs @ prioritised_emails L ys"
  by (simp add: prioritised_emails_def)

lemma foldl_author_step_emails_exact:
  "possible_emails (foldl (author_step L) sc authors) =
     rev (prioritised_emails L (concat (map author_affils authors))) @ possible_emails sc @
     concat (map (appended_emails L) authors)"
proof (induction authors arbitrary: sc)
  case Nil
  then show ?case by (simp add: prioritised_emails_def)
next
  case (Cons author authors)
  show ?case
    by (simp add: Cons.IH author_step_emails_exact prioritised_emails_append)
qed

lemma scan_authors_emails_exact:
  "possible_emails (scan_authors L info) =
     rev (prioritised_emails L (article_affils info)) @
     concat (map (appended_emails L) (article_authors info))"
  by (simp add: scan_authors_def article_affils_def empty_scan_def foldl_author_step_emails_exact)

lemma first_candidate_chosen:
  assumes "article_info_of article = Some info"
    and "non_acad_authors (scan_authors L info) \<noteq> []"
    and "possible_emails (scan_authors L info) = e # es"
  shows "\<exists>r. parse_pubmed_article L env article log = (Inr (Some r), log) \<and>
     Corresponding_Author_Email r = JStr e"
proof -
  from parse_record[OF assms(1,2), of env log] obtain medline v log' where
    r: "resolve_email L env article medline (possible_emails (scan_authors L info)) log = (Inr v, log')"
    and p: "parse_pubmed_article L env article log =
       (Inr (Some \<lparr>PubmedID = findtext ''PMID'' medline,
          Title = (case find_tag ''ArticleTitle'' info of
                     Some title_elem \<Rightarrow> str_strip L (concat (itertext title_elem))
                   | None \<Rightarrow> []),
          Publication_Date = extract_pub_date info,
          Non_academic_Authors = join ''; '' (non_acad_authors (scan_authors L info)),
          Company_Affiliations = join ''; '' (company_affils (scan_authors L info)),
          Corresponding_Author_Email = (if py_truthy v then v else JStr [])\<rparr>), log')"
    by blast
  from r have v: "v = JStr e" "log' = log" unfolding assms(3) resolve_email_inline by simp_all
  have "(if py_truthy (JStr e) then JStr e else JStr []) = JStr e" by simp
  with p v show ?thesis by simp
qed

lemma candidate_origin:
  assumes "e \<in> set (possible_emails (scan_authors L info))"
  shows "\<exists>author\<in>set (article_authors info).
     embedded_email L author = Some e \<or>
     (\<exists>a\<in>set (author_affils author).
        is_non_academic_affiliation L (Some a) \<and> extract_email_from_affil a = Some e)"
proof -
  from assms consider "e \<in> set (prioritised_emails L (article_affils info))"
    | "e \<in> set (concat (map (appended_emails L) (article_authors info)))"
    unfolding scan_authors_emails_exact by auto
  then show ?thesis
  proof cases
    case 1
    then obtain a where a: "a \<in> set (article_affils info)" "corresponding_affil L a"
      "e = str_of (extract_email_from_affil a)"
      by (auto simp: prioritised_emails_def)
    from a(1) obtain author where au: "author \<in> set (article_authors info)"
      "a \<in> set (author_affils author)" by (auto simp: article_affils_def)
    from a(2,3) have "is_non_academic_affiliation L (Some a) \<and>
       extract_email_from_affil a = Some e"
      by (auto simp: corresponding_affil_def str_of_def)
    with au show ?thesis by blast
  next
    case 2
    then obtain author where au: "author \<in> set (article_authors info)"
      "e \<in> set (appended_emails L author)" by auto
    from au(2) consider "e \<in> set (if_text (embedded_email L author))"
      | "e \<in> set (map (\<lambda>a. str_of (extract_email_from_affil a))
          (filter (plain_affil L) (author_affils author)))"
      by (auto simp: appended_emails_def)
    then show ?thesis
    proof cases
      case 1
      then have "embedded_email L author = Some e"
        by (cases "embedded_email L author") (auto simp: if_text_def split: if_splits)
      with au(1) show ?thesis by blast
    next
      case 2
      then obtain a where "a \<in> set (author_affils author)" "plain_affil L a"
        "e = str_of (extract_email_from_affil a)" by auto
      then have "a \<in> set (author_affils author) \<and> is_non_academic_affiliation L (Some a) \<and>
         extract_email_from_affil a = Some e"
        by (auto simp: plain_affil_def str_of_def)
      with au(1) show ?thesis by blast
    qed
  qed
qed

text \<open>
  Claim C2, as amended. The candidate list of an article is, first, the addresses found in
  the affiliations that are classified non-academic and contain \<^verbatim>\<open>corresponding\<close>, the
  last one processed first; then, author by author, the author's embedded address followed
  by the addresses found in the author's other affiliations classified non-academic.  So
  every candidate is an embedded address or comes from an affiliation classified
  non-academic: an affiliation that is not so classified contributes nothing.  When a
  record is produced and there is a candidate, the record carries the first candidate.
  Hence the address of the last affiliation, in processing order, that is classified
  non-academic, contains \<^verbatim>\<open>corresponding\<close> and an address, is the one the record carries.
\<close>

theorem corresponding_email_choice:
  "possible_emails (scan_authors L info) =
     rev (prioritised_emails L (article_affils info)) @
     concat (map (appended_emails L) (article_authors info)) \<and>
   (e \<in> set (possible_emails (scan_authors L info)) \<longrightarrow>
      (\<exists>author\<in>set (article_authors info).
         embedded_email L author = Some e \<or>
         (\<exists>a\<in>set (author_affils author).
            is_non_academic_affiliation L (Some a) \<and> extract_email_from_affil a = Some e))) \<and>
   (article_info_of article = Some info \<and> non_acad_authors (scan_authors L info) \<noteq> [] \<and>
    possible_emails (scan_authors L info) = e # es \<longrightarrow>
      (\<exists>r. parse_pubmed_article L env article log = (Inr (Some r), log) \<and>
         Corresponding_Author_Email r = JStr e)) \<and>
   (article_info_of article = Some info \<and> article_affils info = pre @ a # post \<and>
    corresponding_affil L a \<and> (\<forall>b\<in>set post. \<not> corresponding_affil L b) \<and>
    extract_email_from_affil a = Some e \<longrightarrow>
      (\<exists>r. parse_pubmed_article L env article log = (Inr (Some r), log) \<and>
         Corresponding_Author_Email r = JStr e))"
proof (intro conjI impI)
  show "possible_emails (scan_authors L info) =
     rev (prioritised_emails L (article_affils info)) @
     concat (map (appended_emails L) (article_authors info))"
    by (rule scan_authors_emails_exact)
next
  assume "e \<in> set (possible_emails (scan_authors L info))"
  then show "\<exists>author\<in>set (article_authors info).
         embedded_email L author = Some e \<or>
         (\<exists>a\<in>set (author_affils author).
            is_non_academic_affiliation L (Some a) \<and> extract_email_from_affil a = Some e)"
    by (rule candidate_origin)
next
  assume "article_info_of article = Some info \<and> non_acad_authors (scan_authors L info) \<noteq> [] \<and>
    possible_emails (scan_authors L info) = e # es"
  then show "\<exists>r. parse_pubmed_article L env article log = (Inr (Some r), log) \<and>
         Corresponding_Author_Email r = JStr e"
    using first_candidate_chosen by blast
next
  assume a: "article_info_of article = Some info \<and> article_affils info = pre @ a # post \<and>
    corresponding_affil L a \<and> (\<forall>b\<in>set post. \<not> corresponding_affil L b) \<and>
    extract_email_from_affil a = Some e"
  then have h: "article_info_of article = Some info" "article_affils info = pre @ a # post"
    "corresponding_affil L a" "\<forall>b\<in>set post. \<not> corresponding_affil L b"
    "extract_email_from_affil a = Some e" by simp_all
  show "\<exists>r. parse_pubmed_article L env article log = (Inr (Some r), log) \<and>
         Corresponding_Author_Email r = JStr e"
    by (rule last_corresponding_affil_first[OF h])
qed


theorem corresponding_email_choice_witness:
  "possible_emails (scan_authors ascii_lib (example_info three_authors)) =
     [''poe@beta.com'', ''jane@acme.com''] \<and>
   \<not> (\<exists>author\<in>set (article_authors (example_info three_authors)).
        embedded_email ascii_lib author = Some ''roe@x.edu'' \<or>
        (\<exists>a\<in>set (author_affils author).
           is_non_academic_affiliation ascii_lib (Some a) \<and>
           extract_email_from_affil a = Some ''roe@x.edu'')) \<and>
   ''roe@x.edu'' \<notin> set (possible_emails (scan_authors ascii_lib (example_info three_authors))) \<and>
   (\<exists>r. parse_pubmed_article ascii_lib offline (example_article ''1'' three_authors []) [] =
       (Inr (Some r), []) \<and>
     Corresponding_Author_Email r = JStr ''poe@beta.com'')"
proof -
  note th = corresponding_email_choice[where L = ascii_lib and info = "example_info three_authors"
      and article = "example_article ''1'' three_authors []" and env = offline
      and log = "[]"]
  have pe: "possible_emails (scan_authors ascii_lib (example_info three_authors)) =
     [''poe@beta.com'', ''jane@acme.com'']"
    unfolding th[where e = "[]" and es = "[]" and pre = "[]" and a = "[]" and post = "[]",
        THEN conjunct1]
    by code_simp
  have no: "\<not> (\<exists>author\<in>set (article_authors (example_info three_authors)).
        embedded_email ascii_lib author = Some ''roe@x.edu'' \<or>
        (\<exists>a\<in>set (author_affils author).
           is_non_academic_affiliation ascii_lib (Some a) \<and>
           extract_email_from_affil a = Some ''roe@x.edu''))"
    by code_simp
  have notin: "''roe@x.edu'' \<notin>
     set (possible_emails (scan_authors ascii_lib (example_info three_authors)))"
    using th[where e = "''roe@x.edu''" and es = "[]" and pre = "[]" and a = "[]" and post = "[]",
        THEN conjunct2, THEN conjunct1] no
    by blast
  have h1: "article_info_of (example_article ''1'' three_authors []) =
     Some (example_info three_authors)"
    by code_simp
  have h2: "article_affils (example_info three_authors) =
     [''Acme Pharma Inc. Corresponding author: jane@acme.com''] @
     ''Beta Biotech Ltd. Corresponding author: poe@beta.com'' #
     [''Corresponding author: University of X, roe@x.edu'']"
    by code_simp
  have h3: "corresponding_affil ascii_lib ''Beta Biotech Ltd. Corresponding author: poe@beta.com''"
    by code_simp
  have h4: "\<forall>b\<in>set [''Corresponding author: University of X, roe@x.edu''].
     \<not> corresponding_affil ascii_lib b"
    by code_simp
  have h5: "extract_email_from_affil ''Beta Biotech Ltd. Corresponding author: poe@beta.com'' =
     Some ''poe@beta.com''"
    by code_simp
  have r: "\<exists>r. parse_pubmed_article ascii_lib offline (example_article ''1'' three_authors []) [] =
       (Inr (Some r), []) \<and>
     Corresponding_Author_Email r = JStr ''poe@beta.com''"
    using th[where e = "''poe@beta.com''" and es = "[]"
        and pre = "[''Acme Pharma Inc. Corresponding author: jane@acme.com'']"
        and a = "''Beta Biotech Ltd. Corresponding author: poe@beta.com''"
        and post = "[''Corresponding author: University of X, roe@x.edu'']",
        THEN conjunct2, THEN conjunct2, THEN conjunct2] h1 h2 h3 h4 h5
    by blast
  show ?thesis by (intro conjI) (rule pe no notin r)+
qed

text \<open>
  Counterexample to claim C2 as stated. In the article below each of the three authors has
  an affiliation that contains \<^verbatim>\<open>corresponding\<close> and an e-mail address.  The affiliations
  are processed in the order Doe, Poe, Roe.  Roe's is the last one, but it is classified
  academic, so its address is never a candidate; Doe's is classified non-academic, but the
  address of Poe, found later, is put in front of it.  The record carries the address of
  Poe, and neither that of Doe nor that of Roe.
\<close>

theorem corresponding_email_not_always_chosen:
  "article_affils (example_info three_authors) =
     [''Acme Pharma Inc. Corresponding author: jane@acme.com'',
      ''Beta Biotech Ltd. Corresponding author: poe@beta.com'',
      ''Corresponding author: University of X, roe@x.edu''] \<and>
   str_contains (str_lower ascii_lib ''Corresponding author: University of X, roe@x.edu'')
     ''corresponding'' \<and>
   extract_email_from_affil ''Corresponding author: University of X, roe@x.edu'' =
     Some ''roe@x.edu'' \<and>
   \<not> is_non_academic_affiliation ascii_lib
     (Some ''Corresponding author: University of X, roe@x.edu'') \<and>
   str_contains (str_lower ascii_lib ''Acme Pharma Inc. Corresponding author: jane@acme.com'')
     ''corresponding'' \<and>
   extract_email_from_affil ''Acme Pharma Inc. Corresponding author: jane@acme.com'' =
     Some ''jane@acme.com'' \<and>
   is_non_academic_affiliation ascii_lib
     (Some ''Acme Pharma Inc. Corresponding author: jane@acme.com'') \<and>
   parse_pubmed_article ascii_lib offline (example_article ''1'' three_authors []) [] =
     (Inr (Some \<lparr>PubmedID = Some ''1'', Title = ''A study'', Publication_Date = [],
        Non_academic_Authors = ''Doe, J; Poe, E'',
        Company_Affiliations =
          ''Acme Pharma Inc. Corresponding author: jane@acme.com; Beta Biotech Ltd. Corresponding author: poe@beta.com'',
        Corresponding_Author_Email = JStr ''poe@beta.com''\<rparr>), [])"
proof (intro conjI)
  show "parse_pubmed_article ascii_lib offline (example_article ''1'' three_authors []) [] =
     (Inr (Some \<lparr>PubmedID = Some ''1'', Title = ''A study'', Publication_Date = [],
        Non_academic_Authors = ''Doe, J; Poe, E'',
        Company_Affiliations =
          ''Acme Pharma Inc. Corresponding author: jane@acme.com; Beta Biotech Ltd. Corresponding author: poe@beta.com'',
        Corresponding_Author_Email = JStr ''poe@beta.com''\<rparr>), [])"
    by (rule three_authors_parse)
qed code_simp+

subsection \<open>Records\<close>

text \<open>
  Claim C10. A record's two joined fields are the \<^verbatim>\<open>"; "\<close>-joins of two lists of equal
  length, and pairing the lists position by position gives, author by author, the author's
  name once with each of the author's affiliations that is classified non-academic.
\<close>

theorem parsed_record_lists_parallel:
  assumes "parse_pubmed_article L env article log = (Inr (Some r), log')"
  shows "\<exists>info. article_info_of article = Some info \<and>
     Non_academic_Authors r = join ''; '' (non_acad_authors (scan_authors L info)) \<and>
     Company_Affiliations r = join ''; '' (company_affils (scan_authors L info)) \<and>
     length (non_acad_authors (scan_authors L info)) =
       length (company_affils (scan_authors L info)) \<and>
     zip (non_acad_authors (scan_authors L info)) (company_affils (scan_authors L info)) =
       concat (map (\<lambda>author. map (\<lambda>a. (extract_author_name author, a))
         (filter (\<lambda>a. is_non_academic_affiliation L (Some a)) (author_affils author)))
         (article_authors info))"
proof -
  from assms obtain info where info: "article_info_of article = Some info"
    by (cases "article_info_of article") (simp_all add: parse_no_info)
  from assms info have ne: "non_acad_authors (scan_authors L info) \<noteq> []"
    by (cases "non_acad_authors (scan_authors L info) = []") (simp_all add: parse_no_author)
  from parse_record[OF info ne, of env log] assms
  have "Non_academic_Authors r = join ''; '' (non_acad_authors (scan_authors L info))"
    "Company_Affiliations r = join ''; '' (company_affils (scan_authors L info))"
    by auto
  moreover have "length (non_acad_authors (scan_authors L info)) =
       length (company_affils (scan_authors L info))"
    unfolding scan_authors_names scan_authors_affils
    by (simp add: length_concat comp_def)
  moreover have "zip (non_acad_authors (scan_authors L info)) (company_affils (scan_authors L info)) =
       concat (map (\<lambda>author. map (\<lambda>a. (extract_author_name author, a))
         (filter (\<lambda>a. is_non_academic_affiliation L (Some a)) (author_affils author)))
         (article_authors info))"
    unfolding scan_authors_names scan_authors_affils
    by (rule zip_concat_map)
  ultimately show ?thesis using info by simp
qed

theorem parsed_record_lists_parallel_witness:
  "\<exists>info. article_info_of (example_article ''1'' three_authors []) = Some info \<and>
     ''Doe, J; Poe, E'' = join ''; '' (non_acad_authors (scan_authors ascii_lib info)) \<and>
     length (non_acad_authors (scan_authors ascii_lib info)) =
       length (company_affils (scan_authors ascii_lib info))"
  using parsed_record_lists_parallel[OF three_authors_parse] by auto

subsection \<open>Resolver cascade\<close>

lemma requests_of_append: "requests_of (xs @ ys) = requests_of xs @ requests_of ys"
  by (induction xs rule: requests_of.induct) simp_all

lemma resolve_email_cascade:
  "resolve_email L env article medline [] log =
     (let doi = get_doi_from_pubmed_xml L article;
          pmid = findtext ''PMID'' medline;
          A = (if truthy doi then [Get (CrossRef (str_of doi)), Sleep_resolver] else []);
          c1 = projr (fst (get_email_from_crossref env (str_of doi) log));
          try2 = ((\<not> truthy doi \<or> \<not> py_truthy c1) \<and> truthy pmid);
          B = (if try2 then [Get (EuropePMC_search (str_of pmid)), Sleep_resolver] else []);
          c2 = projr (fst (get_email_from_europepmc env (str_of pmid) (log @ A)));
          try3 = (try2 \<and> \<not> py_truthy c2);
          C = (if try3 then [Get (EuropePMC_emails (str_of pmid)), Sleep_resolver] else []);
          c3 = projr (fst (get_email_from_europepmc_emails_endpoint env (str_of pmid)
                 (log @ A @ B)))
      in (Inr (if try3 then c3 else if try2 then c2 else if truthy doi then c1 else JNull),
          log @ A @ B @ C))"
  by (simp add: resolve_email_def Let_def run_resolver_crossref run_resolver_europepmc
      run_resolver_emails)



lemma resolve_email_log:
  "\<exists>new. snd (resolve_email L env article medline emails log) = log @ new \<and>
     filter is_efetch (requests_of new) = []"
proof (cases emails)
  case Nil
  let ?doi = "get_doi_from_pubmed_xml L article"
  let ?pmid = "findtext ''PMID'' medline"
  let ?A = "if truthy ?doi then [Get (CrossRef (str_of ?doi)), Sleep_resolver] else []"
  let ?c1 = "projr (fst (get_email_from_crossref env (str_of ?doi) log))"
  let ?try2 = "(\<not> truthy ?doi \<or> \<not> py_truthy ?c1) \<and> truthy ?pmid"
  let ?B = "if ?try2 then [Get (EuropePMC_search (str_of ?pmid)), Sleep_resolver] else []"
  let ?c2 = "projr (fst (get_email_from_europepmc env (str_of ?pmid) (log @ ?A)))"
  let ?C = "if ?try2 \<and> \<not> py_truthy ?c2
            then [Get (EuropePMC_emails (str_of ?pmid)), Sleep_resolver] else []"
  have "snd (resolve_email L env article medline emails log) = log @ (?A @ ?B @ ?C)"
    unfolding Nil resolve_email_cascade Let_def by simp
  moreover have "filter is_efetch (requests_of (?A @ ?B @ ?C)) = []" by simp
  ultimately show ?thesis by blast
next
  case (Cons e es)
  then have "snd (resolve_email L env article medline emails log) = log @ [] \<and>
     filter is_efetch (requests_of []) = []"
    by (simp add: resolve_email_inline)
  then show ?thesis by (rule exI)
qed

lemma parse_log:
  "\<exists>new. snd (parse_pubmed_article L env article log) = log @ new \<and>
     filter is_efetch (requests_of new) = []"
proof (cases "article_info_of article")
  case None
  then have "snd (parse_pubmed_article L env article log) = log @ [] \<and>
     filter is_efetch (requests_of []) = []"
    by (simp add: parse_no_info)
  then show ?thesis by (rule exI)
next
  case (Some info)
  show ?thesis
  proof (cases "non_acad_authors (scan_authors L info) = []")
    case True
    with Some have "snd (parse_pubmed_article L env article log) = log @ [] \<and>
       filter is_efetch (requests_of []) = []"
      by (simp add: parse_no_author)
    then show ?thesis by (rule exI)
  next
    case False
    from parse_record[OF Some False, of env log] obtain medline v log' where
      r: "resolve_email L env article medline (possible_emails (scan_authors L info)) log =
        (Inr v, log')"
      and p: "snd (parse_pubmed_article L env article log) = log'"
      by auto
    from resolve_email_log[of L env article medline "possible_emails (scan_authors L info)" log] r p
    show ?thesis by simp
  qed
qed

subsection \<open>Batched detail retrieval\<close>

lemma records_append: "records (xs @ ys) = records xs @ records ys"
  by (simp add: records_def)

lemma records_Cons:
  "records (None # outs) = records outs"
  "records (Some r # outs) = r # records outs"
  by (simp_all add: records_def)

lemma in_records_iff: "r \<in> set (records outs) \<longleftrightarrow> Some r \<in> set outs"
  by (induction outs) (auto simp: records_def split: option.splits)

lemma parse_articles_spec:
  "\<exists>outs new. parse_articles L env arts results log = (Inr (results @ records outs), log @ new) \<and>
     filter is_efetch (requests_of new) = [] \<and>
     list_all2 (\<lambda>a out. \<exists>l l'. parse_pubmed_article L env a l = (Inr out, l')) arts outs"
proof (induction arts arbitrary: results log)
  case Nil
  have "parse_articles L env [] results log = (Inr (results @ records []), log @ []) \<and>
     filter is_efetch (requests_of []) = [] \<and>
     list_all2 (\<lambda>a out. \<exists>l l'. parse_pubmed_article L env a l = (Inr out, l')) [] []"
    by (simp add: records_def)
  then show ?case by (intro exI)
next
  case (Cons a arts)
  obtain out log1 where p: "parse_pubmed_article L env a log = (Inr out, log1)"
    using parse_never_raises by blast
  obtain new1 where n1: "log1 = log @ new1" "filter is_efetch (requests_of new1) = []"
    using parse_log[of L env a log] p by auto
  let ?results1 = "results @ records [out]"
  obtain outs new2 where ih:
    "parse_articles L env arts ?results1 log1 = (Inr (?results1 @ records outs), log1 @ new2)"
    "filter is_efetch (requests_of new2) = []"
    "list_all2 (\<lambda>a out. \<exists>l l'. parse_pubmed_article L env a l = (Inr out, l')) arts outs"
    using Cons.IH[of ?results1 log1] by blast
  have step: "parse_articles L env (a # arts) results log = parse_articles L env arts ?results1 log1"
    using p by (cases out) (simp_all add: records_def)
  have "parse_articles L env (a # arts) results log =
      (Inr (results @ records (out # outs)), log @ (new1 @ new2)) \<and>
     filter is_efetch (requests_of (new1 @ new2)) = [] \<and>
     list_all2 (\<lambda>a out. \<exists>l l'. parse_pubmed_article L env a l = (Inr out, l')) (a # arts)
       (out # outs)"
    using step ih n1 p by (auto simp: records_def requests_of_append)
  then show ?case by (intro exI)
qed

declare batches.simps [simp del]

lemma batches_step:
  "i < length xs \<Longrightarrow>
     batches BATCH_SIZE (drop i xs) =
       take BATCH_SIZE (drop i xs) # batches BATCH_SIZE (drop (i + BATCH_SIZE) xs)"
  by (subst batches.simps) (simp add: BATCH_SIZE_def add.commute)

lemma batches_Nil: "batches n [] = []"
  by (subst batches.simps) simp

lemma concat_batches: "0 < n \<Longrightarrow> concat (batches n xs) = xs"
proof (induction n xs rule: batches.induct)
  case (1 n xs)
  show ?case
  proof (cases "xs = []")
    case True
    then show ?thesis by (subst batches.simps) simp
  next
    case False
    with 1 have "concat (batches n (drop n xs)) = drop n xs" by simp
    with False "1.prems" show ?thesis by (subst batches.simps) simp
  qed
qed

lemma batches_sizes: "b \<in> set (batches n xs) \<Longrightarrow> b \<noteq> [] \<and> length b \<le> n"
proof (induction n xs rule: batches.induct)
  case (1 n xs)
  show ?case
  proof (cases "n = 0 \<or> xs = []")
    case True
    with "1.prems" show ?thesis by (subst (asm) batches.simps) simp
  next
    case False
    from "1.prems" False have "b = take n xs \<or> b \<in> set (batches n (drop n xs))"
      by (subst (asm) batches.simps) simp
    then show ?thesis
    proof
      assume "b = take n xs"
      with False show ?thesis by simp
    next
      assume "b \<in> set (batches n (drop n xs))"
      with "1.IH" False show ?thesis by simp
    qed
  qed
qed

lemma fetch_batches_spec:
  "fetch_batches L env ids i results log = (Inr results', log') \<Longrightarrow>
     \<exists>roots outs new. log' = log @ new \<and>
       filter is_efetch (requests_of new) =
         map (\<lambda>b. EFetch (join '','' b)) (batches BATCH_SIZE (drop i ids)) \<and>
       list_all2 (\<lambda>b root. \<exists>l status. env l (EFetch (join '','' b)) = Response status (Xml root) \<and>
            \<not> is_error_status status) (batches BATCH_SIZE (drop i ids)) roots \<and>
       list_all2 (\<lambda>a out. \<exists>l l'. parse_pubmed_article L env a l = (Inr out, l'))
         (concat (map (findall_desc ''PubmedArticle'') roots)) outs \<and>
       results' = results @ records outs"
proof (induction "length ids - i" arbitrary: i results log rule: less_induct)
  case less
  note run = less.prems
  show ?case
  proof (cases "i \<ge> length ids")
    case True
    with run have "results' = results" "log' = log"
      by (simp_all add: fetch_batches.simps[of L env ids i])
    with True have "log' = log @ [] \<and>
       filter is_efetch (requests_of []) =
         map (\<lambda>b. EFetch (join '','' b)) (batches BATCH_SIZE (drop i ids)) \<and>
       list_all2 (\<lambda>b root. \<exists>l status. env l (EFetch (join '','' b)) = Response status (Xml root) \<and>
            \<not> is_error_status status) (batches BATCH_SIZE (drop i ids)) [] \<and>
       list_all2 (\<lambda>a out. \<exists>l l'. parse_pubmed_article L env a l = (Inr out, l'))
         (concat (map (findall_desc ''PubmedArticle'') [])) [] \<and>
       results' = results @ records []"
      by (simp add: batches_Nil records_def)
    then show ?thesis by (intro exI)
  next
    case False
    let ?batch = "take BATCH_SIZE (drop i ids)"
    let ?req = "EFetch (join '','' ?batch)"
    let ?log1 = "log @ [Get ?req]"
    let ?sleep = "if i + BATCH_SIZE < length ids then [Sleep_throttle] else []"
    let ?log2 = "?log1 @ ?sleep"
    from run False obtain status body where resp: "env log ?req = Response status body"
      by (cases "env log ?req") (simp_all add: fetch_batches.simps[of L env ids i] Let_def)
    from run False resp have ok: "\<not> is_error_status status"
      by (cases "is_error_status status") (simp_all add: fetch_batches.simps[of L env ids i] Let_def)
    from run False resp ok obtain root where root: "body = Xml root"
      by (cases body) (simp_all add: fetch_batches.simps[of L env ids i] Let_def fromstring_def)
    obtain outs1 new1 where pa:
      "parse_articles L env (findall_desc ''PubmedArticle'' root) results ?log2 =
         (Inr (results @ records outs1), ?log2 @ new1)"
      "filter is_efetch (requests_of new1) = []"
      "list_all2 (\<lambda>a out. \<exists>l l'. parse_pubmed_article L env a l = (Inr out, l'))
         (findall_desc ''PubmedArticle'' root) outs1"
      using parse_articles_spec[of L env "findall_desc ''PubmedArticle'' root" results ?log2]
      by blast
    have log2: "(if i + BATCH_SIZE < length ids then ?log1 @ [Sleep_throttle] else ?log1) = ?log2"
      by simp
    from run False resp ok root pa(1)
    have rec: "fetch_batches L env ids (i + BATCH_SIZE) (results @ records outs1) (?log2 @ new1) =
        (Inr results', log')"
      by (simp add: fetch_batches.simps[of L env ids i] Let_def fromstring_def log2
          del: append_assoc)
    from False have "length ids - (i + BATCH_SIZE) < length ids - i"
      by (simp add: BATCH_SIZE_def)
    from less.hyps[OF this rec]
    have "\<exists>roots outs new. log' = (?log2 @ new1) @ new \<and>
       filter is_efetch (requests_of new) =
         map (\<lambda>b. EFetch (join '','' b)) (batches BATCH_SIZE (drop (i + BATCH_SIZE) ids)) \<and>
       list_all2 (\<lambda>b root. \<exists>l status. env l (EFetch (join '','' b)) = Response status (Xml root) \<and>
            \<not> is_error_status status) (batches BATCH_SIZE (drop (i + BATCH_SIZE) ids)) roots \<and>
       list_all2 (\<lambda>a out. \<exists>l l'. parse_pubmed_article L env a l = (Inr out, l'))
         (concat (map (findall_desc ''PubmedArticle'') roots)) outs \<and>
       results' = (results @ records outs1) @ records outs" .
    then obtain roots outs new where ih:
      "log' = (?log2 @ new1) @ new"
      "filter is_efetch (requests_of new) =
         map (\<lambda>b. EFetch (join '','' b)) (batches BATCH_SIZE (drop (i + BATCH_SIZE) ids))"
      "list_all2 (\<lambda>b root. \<exists>l status. env l (EFetch (join '','' b)) = Response status (Xml root) \<and>
            \<not> is_error_status status) (batches BATCH_SIZE (drop (i + BATCH_SIZE) ids)) roots"
      "list_all2 (\<lambda>a out. \<exists>l l'. parse_pubmed_article L env a l = (Inr out, l'))
         (concat (map (findall_desc ''PubmedArticle'') roots)) outs"
      "results' = (results @ records outs1) @ records outs"
      by blast
    from False have bs: "batches BATCH_SIZE (drop i ids) =
        ?batch # batches BATCH_SIZE (drop (i + BATCH_SIZE) ids)"
      by (simp add: batches_step)
    have "log' = log @ ([Get ?req] @ ?sleep @ new1 @ new) \<and>
       filter is_efetch (requests_of ([Get ?req] @ ?sleep @ new1 @ new)) =
         map (\<lambda>b. EFetch (join '','' b)) (batches BATCH_SIZE (drop i ids)) \<and>
       list_all2 (\<lambda>b root. \<exists>l status. env l (EFetch (join '','' b)) = Response status (Xml root) \<and>
            \<not> is_error_status status) (batches BATCH_SIZE (drop i ids)) (root # roots) \<and>
       list_all2 (\<lambda>a out. \<exists>l l'. parse_pubmed_article L env a l = (Inr out, l'))
         (concat (map (findall_desc ''PubmedArticle'') (root # roots))) (outs1 @ outs) \<and>
       results' = results @ records (outs1 @ outs)"
    proof (intro conjI)
      show "log' = log @ ([Get ?req] @ ?sleep @ new1 @ new)" using ih(1) by simp
      show "filter is_efetch (requests_of ([Get ?req] @ ?sleep @ new1 @ new)) =
         map (\<lambda>b. EFetch (join '','' b)) (batches BATCH_SIZE (drop i ids))"
        using ih(2) pa(2) by (simp add: bs requests_of_append)
      show "list_all2 (\<lambda>b root. \<exists>l status. env l (EFetch (join '','' b)) = Response status (Xml root) \<and>
            \<not> is_error_status status) (batches BATCH_SIZE (drop i ids)) (root # roots)"
        unfolding bs using ih(3) resp ok root by auto
      show "list_all2 (\<lambda>a out. \<exists>l l'. parse_pubmed_article L env a l = (Inr out, l'))
         (concat (map (findall_desc ''PubmedArticle'') (root # roots))) (outs1 @ outs)"
        using pa(3) ih(4) by (simp add: list_all2_appendI)
      show "results' = results @ records (outs1 @ outs)"
        using ih(5) by (simp add: records_append)
    qed
    then show ?thesis by (intro exI)
  qed
qed

declare fetch_batches.simps [simp del]

lemma fetch_batches_returns:
  assumes ok: "\<And>l b. \<exists>status root. env l (EFetch b) = Response status (Xml root) \<and>
     \<not> is_error_status status"
  shows "\<exists>results' log'. fetch_batches L env ids i results log = (Inr results', log')"
proof (induction "length ids - i" arbitrary: i results log rule: less_induct)
  case less
  show ?case
  proof (cases "i \<ge> length ids")
    case True
    then show ?thesis by (simp add: fetch_batches.simps[of L env ids i])
  next
    case False
    let ?batch = "take BATCH_SIZE (drop i ids)"
    let ?req = "EFetch (join '','' ?batch)"
    let ?log1 = "log @ [Get ?req]"
    let ?log2 = "if i + BATCH_SIZE < length ids then ?log1 @ [Sleep_throttle] else ?log1"
    from ok[of log "join '','' ?batch"] obtain status root where
      resp: "env log ?req = Response status (Xml root)" "\<not> is_error_status status" by blast
    obtain outs1 new1 where pa:
      "parse_articles L env (findall_desc ''PubmedArticle'' root) results ?log2 =
         (Inr (results @ records outs1), ?log2 @ new1)"
      using parse_articles_spec[of L env "findall_desc ''PubmedArticle'' root" results ?log2]
      by blast
    from False have "length ids - (i + BATCH_SIZE) < length ids - i"
      by (simp add: BATCH_SIZE_def)
    from less.hyps[OF this, of "results @ records outs1" "?log2 @ new1"]
    obtain results' log' where
      "fetch_batches L env ids (i + BATCH_SIZE) (results @ records outs1) (?log2 @ new1) =
        (Inr results', log')" by blast
    with False resp pa show ?thesis
      by (simp add: fetch_batches.simps[of L env ids i] Let_def fromstring_def
          del: append_assoc)
  qed
qed

lemma detail_service_fetch:
  "fetch_pubmed_details ascii_lib detail_service [''1'', ''2''] [] =
     (Inr [\<lparr>PubmedID = Some ''1'', Title = ''A study'', Publication_Date = [],
        Non_academic_Authors = ''Doe, J; Poe, E'',
        Company_Affiliations =
          ''Acme Pharma Inc. Corresponding author: jane@acme.com; Beta Biotech Ltd. Corresponding author: poe@beta.com'',
        Corresponding_Author_Email = JStr ''poe@beta.com''\<rparr>],
      [Get (EFetch ''1,2'')])"
  by code_simp

text \<open>
  Claim C9. When \<open>fetch_pubmed_details\<close> returns, its detail requests are, in order,
  one for each consecutive batch of at most 100 identifiers, each answered by a document;
  the result is the list of the records among the parse results of the articles of these
  documents, in batch order and document order. It returns whenever every detail request
  is answered by a document without an error status.
\<close>

theorem fetch_pubmed_details_batches:
  "(fetch_pubmed_details L env ids log = (Inr results, log') \<longrightarrow>
      (\<exists>roots outs new. log' = log @ new \<and>
         filter is_efetch (requests_of new) =
           map (\<lambda>b. EFetch (join '','' b)) (batches BATCH_SIZE ids) \<and>
         list_all2 (\<lambda>b root. \<exists>l status.
              env l (EFetch (join '','' b)) = Response status (Xml root) \<and>
              \<not> is_error_status status) (batches BATCH_SIZE ids) roots \<and>
         list_all2 (\<lambda>a out. \<exists>l l'. parse_pubmed_article L env a l = (Inr out, l'))
           (concat (map (findall_desc ''PubmedArticle'') roots)) outs \<and>
         results = records outs)) \<and>
   ((\<forall>l b. \<exists>status root. env l (EFetch b) = Response status (Xml root) \<and>
        \<not> is_error_status status) \<longrightarrow>
      (\<exists>results log'. fetch_pubmed_details L env ids log = (Inr results, log'))) \<and>
   BATCH_SIZE = 100 \<and>
   concat (batches BATCH_SIZE ids) = ids \<and>
   (\<forall>b\<in>set (batches BATCH_SIZE ids). b \<noteq> [] \<and> length b \<le> BATCH_SIZE)"
proof (intro conjI impI)
  assume run: "fetch_pubmed_details L env ids log = (Inr results, log')"
  show "\<exists>roots outs new. log' = log @ new \<and>
         filter is_efetch (requests_of new) =
           map (\<lambda>b. EFetch (join '','' b)) (batches BATCH_SIZE ids) \<and>
         list_all2 (\<lambda>b root. \<exists>l status.
              env l (EFetch (join '','' b)) = Response status (Xml root) \<and>
              \<not> is_error_status status) (batches BATCH_SIZE ids) roots \<and>
         list_all2 (\<lambda>a out. \<exists>l l'. parse_pubmed_article L env a l = (Inr out, l'))
           (concat (map (findall_desc ''PubmedArticle'') roots)) outs \<and>
         results = records outs"
  proof (cases "ids = []")
    case True
    with run have "log' = log @ [] \<and>
         filter is_efetch (requests_of []) =
           map (\<lambda>b. EFetch (join '','' b)) (batches BATCH_SIZE ids) \<and>
         list_all2 (\<lambda>b root. \<exists>l status.
              env l (EFetch (join '','' b)) = Response status (Xml root) \<and>
              \<not> is_error_status status) (batches BATCH_SIZE ids) [] \<and>
         list_all2 (\<lambda>a out. \<exists>l l'. parse_pubmed_article L env a l = (Inr out, l'))
           (concat (map (findall_desc ''PubmedArticle'') [])) [] \<and>
         results = records []"
      by (simp add: fetch_pubmed_details_def batches_Nil records_def)
    then show ?thesis by (intro exI)
  next
    case False
    with run have "fetch_batches L env ids 0 [] log = (Inr results, log')"
      by (simp add: fetch_pubmed_details_def)
    from fetch_batches_spec[OF this] show ?thesis by simp
  qed
next
  assume "\<forall>l b. \<exists>status root. env l (EFetch b) = Response status (Xml root) \<and>
        \<not> is_error_status status"
  then have "\<exists>results' log'. fetch_batches L env ids 0 [] log = (Inr results', log')"
    by (intro fetch_batches_returns) blast
  then show "\<exists>results log'. fetch_pubmed_details L env ids log = (Inr results, log')"
    by (cases "ids = []") (simp_all add: fetch_pubmed_details_def)
next
  show "BATCH_SIZE = 100" by (simp add: BATCH_SIZE_def)
  show "concat (batches BATCH_SIZE ids) = ids" by (simp add: concat_batches BATCH_SIZE_def)
  show "\<forall>b\<in>set (batches BATCH_SIZE ids). b \<noteq> [] \<and> length b \<le> BATCH_SIZE"
    using batches_sizes by blast
qed

theorem fetch_pubmed_details_batches_witness:
  "\<exists>roots outs new. [Get (EFetch ''1,2'')] = [] @ new \<and>
     filter is_efetch (requests_of new) =
       map (\<lambda>b. EFetch (join '','' b)) (batches BATCH_SIZE [''1'', ''2'']) \<and>
     list_all2 (\<lambda>b root. \<exists>l status.
          detail_service l (EFetch (join '','' b)) = Response status (Xml root) \<and>
          \<not> is_error_status status) (batches BATCH_SIZE [''1'', ''2'']) roots \<and>
     list_all2 (\<lambda>a out. \<exists>l l'. parse_pubmed_article ascii_lib detail_service a l = (Inr out, l'))
       (concat (map (findall_desc ''PubmedArticle'') roots)) outs \<and>
     [\<lparr>PubmedID = Some ''1'', Title = ''A study'', Publication_Date = [],
        Non_academic_Authors = ''Doe, J; Poe, E'',
        Company_Affiliations =
          ''Acme Pharma Inc. Corresponding author: jane@acme.com; Beta Biotech Ltd. Corresponding author: poe@beta.com'',
        Corresponding_Author_Email = JStr ''poe@beta.com''\<rparr>] = records outs"
  by (rule fetch_pubmed_details_batches[THEN conjunct1, rule_format, OF detail_service_fetch])

text \<open>
  Claim C1. The parser returns \<^verbatim>\<open>None\<close>, without any request, for an article none of
  whose authors has an affiliation classified non-academic; it produces a record only for
  an article with such an author; and every record that \<open>fetch_pubmed_details\<close> returns
  is the parse result of such an article of a fetched document.
\<close>

theorem no_record_without_non_academic_author:
  "(\<not> has_non_academic_author L article \<longrightarrow>
      parse_pubmed_article L env article log = (Inr None, log)) \<and>
   (fst (parse_pubmed_article L env article log) = Inr (Some r) \<longrightarrow>
      has_non_academic_author L article) \<and>
   (fetch_pubmed_details L env ids log = (Inr results, log') \<and> r \<in> set results \<longrightarrow>
      (\<exists>a root l status b l1 l2.
         env l (EFetch b) = Response status (Xml root) \<and>
         a \<in> set (findall_desc ''PubmedArticle'' root) \<and>
         has_non_academic_author L a \<and>
         parse_pubmed_article L env a l1 = (Inr (Some r), l2)))"
proof (intro conjI impI)
  assume no: "\<not> has_non_academic_author L article"
  show "parse_pubmed_article L env article log = (Inr None, log)"
  proof (cases "article_info_of article")
    case None
    then show ?thesis by (rule parse_no_info)
  next
    case (Some info)
    with no have "non_acad_authors (scan_authors L info) = []"
      by (simp add: has_non_academic_author_iff)
    with Some show ?thesis by (rule parse_no_author)
  qed
next
  assume "fst (parse_pubmed_article L env article log) = Inr (Some r)"
  then have "\<exists>r. fst (parse_pubmed_article L env article log) = Inr (Some r)" by (rule exI)
  then show "has_non_academic_author L article" by (simp only: parse_Some_iff)
next
  assume a: "fetch_pubmed_details L env ids log = (Inr results, log') \<and> r \<in> set results"
  then have ne: "ids \<noteq> []" by (auto simp: fetch_pubmed_details_def)
  with a have "fetch_batches L env ids 0 [] log = (Inr results, log')"
    by (simp add: fetch_pubmed_details_def)
  from fetch_batches_spec[OF this] obtain roots outs where
    roots: "list_all2 (\<lambda>b root. \<exists>l status.
              env l (EFetch (join '','' b)) = Response status (Xml root) \<and>
              \<not> is_error_status status) (batches BATCH_SIZE (drop 0 ids)) roots"
    and outs: "list_all2 (\<lambda>a out. \<exists>l l'. parse_pubmed_article L env a l = (Inr out, l'))
           (concat (map (findall_desc ''PubmedArticle'') roots)) outs"
    and res: "results = [] @ records outs"
    by blast
  from a res have "Some r \<in> set outs" by (simp add: in_records_iff)
  then obtain k where k: "k < length outs" "outs ! k = Some r" by (auto simp: in_set_conv_nth)
  let ?arts = "concat (map (findall_desc ''PubmedArticle'') roots)"
  from outs k have len: "k < length ?arts" by (simp add: list_all2_lengthD)
  from list_all2_nthD2[OF outs k(1)] k(2) obtain l1 l2 where
    p: "parse_pubmed_article L env (?arts ! k) l1 = (Inr (Some r), l2)" by auto
  have "?arts ! k \<in> set ?arts" using len by (rule nth_mem)
  then obtain root where root: "root \<in> set roots" "?arts ! k \<in> set (findall_desc ''PubmedArticle'' root)"
    by auto
  from root(1) obtain j where j: "j < length roots" "roots ! j = root"
    by (auto simp: in_set_conv_nth)
  from list_all2_nthD2[OF roots j(1)] j(2) obtain l status b where
    e: "env l (EFetch b) = Response status (Xml root)" by blast
  from p have "\<exists>r. fst (parse_pubmed_article L env (?arts ! k) l1) = Inr (Some r)" by simp
  then have h: "has_non_academic_author L (?arts ! k)" by (simp only: parse_Some_iff)
  from e root(2) h p show "\<exists>a root l status b l1 l2.
         env l (EFetch b) = Response status (Xml root) \<and>
         a \<in> set (findall_desc ''PubmedArticle'' root) \<and>
         has_non_academic_author L a \<and>
         parse_pubmed_article L env a l1 = (Inr (Some r), l2)"
    by blast
qed

theorem no_record_without_non_academic_author_witness:
  "\<not> has_non_academic_author ascii_lib academic_article \<and>
   parse_pubmed_article ascii_lib offline academic_article [] = (Inr None, []) \<and>
   has_non_academic_author ascii_lib (example_article ''1'' three_authors [])"
proof -
  have h: "\<not> has_non_academic_author ascii_lib academic_article" by code_simp
  note c1 = no_record_without_non_academic_author
    [where L = ascii_lib and article = academic_article and env = offline and log = "[]",
     THEN conjunct1, rule_format, OF h]
  have e: "fst (parse_pubmed_article ascii_lib offline (example_article ''1'' three_authors []) []) =
     Inr (Some \<lparr>PubmedID = Some ''1'', Title = ''A study'', Publication_Date = [],
        Non_academic_Authors = ''Doe, J; Poe, E'',
        Company_Affiliations =
          ''Acme Pharma Inc. Corresponding author: jane@acme.com; Beta Biotech Ltd. Corresponding author: poe@beta.com'',
        Corresponding_Author_Email = JStr ''poe@beta.com''\<rparr>)"
    by (simp add: three_authors_parse)
  note c2 = no_record_without_non_academic_author
    [THEN conjunct2, THEN conjunct1, rule_format, OF e]
  show ?thesis by (intro conjI) (rule h c1 c2)+
qed

subsection \<open>Paged search\<close>

lemma esearch_loop_first_page:
  assumes "page_ok env log (ESearch q retmax retstart) data" "read_count L data = Inr tot"
  shows "esearch_loop L env q retmax retstart None all_ids log =
     esearch_loop L env q retmax retstart (Some tot) all_ids log"
proof -
  from assms(1) obtain status where
    "env log (ESearch q retmax retstart) = Response status (Json data)" "\<not> is_error_status status"
    by (auto simp: page_ok_def)
  with assms(2) show ?thesis
    by (simp add: esearch_loop.simps[of L env q retmax retstart None all_ids log]
        esearch_loop.simps[of L env q retmax retstart "Some tot" all_ids log]
        Let_def resp_json_def)
qed

lemma esearch_loop_page:
  assumes "page_ok env log (ESearch q retmax retstart) data" "read_idlist data = Inr ids"
  shows "esearch_loop L env q retmax retstart (Some tot) all_ids log =
     (if retstart + retmax \<ge> tot
      then Some (Inr (all_ids @ ids), log @ [Get (ESearch q retmax retstart), Sleep_throttle])
      else esearch_loop L env q retmax (retstart + retmax) (Some tot) (all_ids @ ids)
             (log @ [Get (ESearch q retmax retstart), Sleep_throttle]))"
proof -
  from assms(1) obtain status where
    "env log (ESearch q retmax retstart) = Response status (Json data)" "\<not> is_error_status status"
    by (auto simp: page_ok_def)
  with assms(2) show ?thesis
    by (simp add: esearch_loop.simps[of L env q retmax retstart "Some tot" all_ids log]
        Let_def resp_json_def)
qed

lemma esearch_loop_Inr:
  assumes "esearch_loop L env q retmax retstart tc all_ids log = Some (Inr ids, log')"
  shows "\<exists>data page. page_ok env log (ESearch q retmax retstart) data \<and>
     read_idlist data = Inr page \<and> (tc = None \<longrightarrow> (\<exists>tot. read_count L data = Inr tot))"
proof -
  let ?req = "ESearch q retmax retstart"
  from assms obtain status body where resp: "env log ?req = Response status body"
    by (cases "env log ?req")
      (simp_all add: esearch_loop.simps[of L env q retmax retstart _ all_ids log] Let_def)
  from assms resp have ok: "\<not> is_error_status status"
    by (cases "is_error_status status")
      (simp_all add: esearch_loop.simps[of L env q retmax retstart _ all_ids log] Let_def)
  from assms resp ok obtain data where data: "body = Json data"
    by (cases body)
      (simp_all add: esearch_loop.simps[of L env q retmax retstart _ all_ids log] Let_def
        resp_json_def)
  from assms resp ok data have cnt: "tc = None \<longrightarrow> (\<exists>tot. read_count L data = Inr tot)"
    by (cases tc; cases "read_count L data")
      (simp_all add: esearch_loop.simps[of L env q retmax retstart _ all_ids log] Let_def
        resp_json_def)
  from assms resp ok data obtain page where "read_idlist data = Inr page"
    by (cases tc; cases "read_count L data"; cases "read_idlist data")
      (simp_all add: esearch_loop.simps[of L env q retmax retstart _ all_ids log] Let_def
        resp_json_def)
  with resp ok data cnt show ?thesis by (auto simp: page_ok_def)
qed

lemma esearch_loop_known_requests:
  assumes "0 < retmax"
    and "esearch_loop L env q retmax retstart (Some tot) all_ids log = Some (Inr ids, log')"
  shows "\<exists>n new. log' = log @ new \<and>
     requests_of new = map (\<lambda>k. ESearch q retmax (retstart + int k * retmax)) [0..<n] \<and>
     1 \<le> n \<and> tot \<le> retstart + int n * retmax \<and>
     (\<forall>k. 1 \<le> k \<and> k < n \<longrightarrow> retstart + int k * retmax < tot)"
  using assms(2)
proof (induction "nat (tot - retstart)" arbitrary: retstart all_ids log rule: less_induct)
  case less
  let ?req = "ESearch q retmax retstart"
  let ?log2 = "log @ [Get ?req, Sleep_throttle]"
  from esearch_loop_Inr[OF less.prems] obtain data page where
    pg: "page_ok env log ?req data" "read_idlist data = Inr page" by blast
  note step = esearch_loop_page[OF pg, of L tot all_ids]
  show ?case
  proof (cases "retstart + retmax \<ge> tot")
    case True
    with less.prems step have "log' = log @ [Get ?req, Sleep_throttle]" by simp
    with True have "log' = log @ [Get ?req, Sleep_throttle] \<and>
       requests_of [Get ?req, Sleep_throttle] =
         map (\<lambda>k. ESearch q retmax (retstart + int k * retmax)) [0..<1] \<and>
       1 \<le> (1::nat) \<and> tot \<le> retstart + int 1 * retmax \<and>
       (\<forall>k. 1 \<le> k \<and> k < (1::nat) \<longrightarrow> retstart + int k * retmax < tot)"
      by simp
    then show ?thesis by (intro exI)
  next
    case False
    with less.prems step have rec:
      "esearch_loop L env q retmax (retstart + retmax) (Some tot) (all_ids @ page) ?log2 =
         Some (Inr ids, log')"
      by simp
    from False assms(1) have "nat (tot - (retstart + retmax)) < nat (tot - retstart)"
      by simp
    from less.hyps[OF this rec] obtain n new where ih:
      "log' = ?log2 @ new"
      "requests_of new = map (\<lambda>k. ESearch q retmax (retstart + retmax + int k * retmax)) [0..<n]"
      "1 \<le> n" "tot \<le> retstart + retmax + int n * retmax"
      "\<forall>k. 1 \<le> k \<and> k < n \<longrightarrow> retstart + retmax + int k * retmax < tot"
      by blast
    have shift: "\<And>k. retstart + retmax + int k * retmax = retstart + int (Suc k) * retmax"
      by (simp add: algebra_simps)
    have a: "log' = log @ ([Get ?req, Sleep_throttle] @ new)" using ih(1) by simp
    have b: "requests_of ([Get ?req, Sleep_throttle] @ new) =
       map (\<lambda>k. ESearch q retmax (retstart + int k * retmax)) [0..<Suc n]"
      unfolding map_upt_Suc using ih(2) by (simp add: shift)
    have c: "tot \<le> retstart + int (Suc n) * retmax" using ih(4) by (simp add: shift)
    have d: "\<forall>k. 1 \<le> k \<and> k < Suc n \<longrightarrow> retstart + int k * retmax < tot"
    proof (intro allI impI)
      fix k assume k: "1 \<le> k \<and> k < Suc n"
      show "retstart + int k * retmax < tot"
      proof (cases "k = 1")
        case True
        with False show ?thesis by simp
      next
        case k1: False
        with k obtain j where j: "k = Suc j" "1 \<le> j" "j < n" by (cases k) auto
        with ih(5) have "retstart + retmax + int j * retmax < tot" by blast
        then show ?thesis unfolding j(1) shift .
      qed
    qed
    from a b c d have "log' = log @ ([Get ?req, Sleep_throttle] @ new) \<and>
       requests_of ([Get ?req, Sleep_throttle] @ new) =
         map (\<lambda>k. ESearch q retmax (retstart + int k * retmax)) [0..<Suc n] \<and>
       1 \<le> Suc n \<and> tot \<le> retstart + int (Suc n) * retmax \<and>
       (\<forall>k. 1 \<le> k \<and> k < Suc n \<longrightarrow> retstart + int k * retmax < tot)"
      by simp
    then show ?thesis by (intro exI)
  qed
qed

lemma esearch_loop_known_returns:
  assumes "0 < retmax"
  shows "esearch_loop L env q retmax retstart (Some tot) all_ids log \<noteq> None"
proof (induction "nat (tot - retstart)" arbitrary: retstart all_ids log rule: less_induct)
  case less
  have "\<And>ids log2. \<not> tot \<le> retstart + retmax \<Longrightarrow>
     esearch_loop L env q retmax (retstart + retmax) (Some tot) ids log2 \<noteq> None"
  proof -
    fix ids log2 assume "\<not> tot \<le> retstart + retmax"
    with assms have "nat (tot - (retstart + retmax)) < nat (tot - retstart)" by simp
    from less.hyps[OF this] show
      "esearch_loop L env q retmax (retstart + retmax) (Some tot) ids log2 \<noteq> None" .
  qed
  then show ?case
    by (simp add: esearch_loop.simps[of L env q retmax retstart "Some tot" all_ids log] Let_def
        split: http_result.split sum.split)
qed

lemma esearch_loop_returns:
  assumes "0 < retmax"
  shows "esearch_loop L env q retmax retstart None all_ids log \<noteq> None"
  using esearch_loop_known_returns[OF assms]
  by (simp add: esearch_loop.simps[of L env q retmax retstart None all_ids log] Let_def
      split: http_result.split sum.split)

lemma reports_total_read_count:
  assumes "reports_total L data n"
  shows "read_count L data = Inr n"
  using assms by (auto simp: reports_total_def read_count_def bind_exn_def)

lemma lists_ids_read_idlist:
  assumes "lists_ids data ids"
  shows "read_idlist data = Inr ids"
  using assms by (auto simp: lists_ids_def read_idlist_def bind_exn_def)

lemma page_ok_unique:
  assumes "page_ok env log req d" "page_ok env log req d'"
  shows "d' = d"
  using assms by (auto simp: page_ok_def)

lemma paging_Suc: "paging q retmax (Suc k) = paging q retmax k @ page_events q retmax k"
  by (simp add: paging_def)

lemma esearch_loop_pages:
  assumes "0 < retmax" and "j < n" and "tot \<le> int n * retmax"
    and "\<forall>k. 1 \<le> k \<and> k < n \<longrightarrow> int k * retmax < tot"
    and "\<forall>k. j \<le> k \<and> k < n \<longrightarrow>
       page_ok env (log @ paging q retmax k) (ESearch q retmax (int k * retmax)) (pages k) \<and>
       read_idlist (pages k) = Inr (page_ids k)"
  shows "esearch_loop L env q retmax (int j * retmax) (Some tot) all_ids (log @ paging q retmax j) =
     Some (Inr (all_ids @ concat (map page_ids [j..<n])), log @ paging q retmax n)"
  using assms(2,5)
proof (induction "n - j" arbitrary: j all_ids rule: less_induct)
  case less
  from less.prems have pg:
    "page_ok env (log @ paging q retmax j) (ESearch q retmax (int j * retmax)) (pages j)"
    "read_idlist (pages j) = Inr (page_ids j)"
    by simp_all
  note step = esearch_loop_page[OF pg, of L tot all_ids]
  have ev: "(log @ paging q retmax j) @ [Get (ESearch q retmax (int j * retmax)), Sleep_throttle] =
     log @ paging q retmax (Suc j)"
    by (simp add: paging_Suc page_events_def)
  have off: "int j * retmax + retmax = int (Suc j) * retmax" by (simp add: algebra_simps)
  show ?case
  proof (cases "Suc j = n")
    case True
    with assms(3) have "tot \<le> int j * retmax + retmax" unfolding off by simp
    moreover have "[j..<n] = [j]" using True by auto
    ultimately show ?thesis unfolding step ev using True by simp
  next
    case False
    with less.prems(1) have lt: "Suc j < n" by simp
    have "1 \<le> Suc j \<and> Suc j < n" using lt by simp
    with assms(4) have "int (Suc j) * retmax < tot" by blast
    then have no: "\<not> tot \<le> int j * retmax + retmax" unfolding off by simp
    have m: "n - Suc j < n - j" using lt by simp
    have rest: "\<forall>k. Suc j \<le> k \<and> k < n \<longrightarrow>
       page_ok env (log @ paging q retmax k) (ESearch q retmax (int k * retmax)) (pages k) \<and>
       read_idlist (pages k) = Inr (page_ids k)"
      using less.prems(2) by simp
    have ih: "esearch_loop L env q retmax (int (Suc j) * retmax) (Some tot)
       (all_ids @ page_ids j) (log @ paging q retmax (Suc j)) =
       Some (Inr ((all_ids @ page_ids j) @ concat (map page_ids [Suc j..<n])),
         log @ paging q retmax n)"
      by (rule less.hyps[OF m lt rest])
    have "[j..<n] = j # [Suc j..<n]" using less.prems(1) by (rule upt_conv_Cons)
    then show ?thesis unfolding step ev off using no ih by (simp add: off)
  qed
qed

text \<open>
  Claim C6. When the count field of the first page says 250 and the three pages at the
  offsets 0, 100 and 200 arrive, each with an identifier list, \<open>fetch_pubmed_ids\<close> with
  page size 100 issues exactly these three requests, each followed by the throttle pause,
  and returns the identifiers of the three pages one after the other; the count fields of
  the later pages play no part.  In general, with a positive page size the loop returns; a
  run that returns a list, after a first page whose count field says \<open>tot\<close>, has asked for
  the offsets 0, \<open>retmax\<close>, \<open>2 * retmax\<close>, ... up to the first one whose end reaches
  \<open>tot\<close>; and when these pages arrive, each with an identifier list, the run returns
  their identifiers one after the other.
\<close>

theorem fetch_pubmed_ids_pagination:
  fixes L env query log
  defines "q \<equiv> clean_query L query"
  defines "e0 \<equiv> [Get (ESearch q 100 0), Sleep_throttle]"
    and "e1 \<equiv> [Get (ESearch q 100 100), Sleep_throttle]"
    and "e2 \<equiv> [Get (ESearch q 100 200), Sleep_throttle]"
  shows
    "(page_ok env log (ESearch q 100 0) d0 \<and> reports_total L d0 250 \<and> lists_ids d0 ids0 \<and>
      page_ok env (log @ e0) (ESearch q 100 100) d1 \<and> lists_ids d1 ids1 \<and>
      page_ok env (log @ e0 @ e1) (ESearch q 100 200) d2 \<and> lists_ids d2 ids2 \<longrightarrow>
        fetch_pubmed_ids L env query 100 log =
          Some (Inr (ids0 @ ids1 @ ids2), log @ e0 @ e1 @ e2)) \<and>
     (0 < retmax \<longrightarrow> fetch_pubmed_ids L env query retmax log \<noteq> None) \<and>
     (0 < retmax \<and> page_ok env log (ESearch q retmax 0) d \<and> reports_total L d tot \<and>
      fetch_pubmed_ids L env query retmax log = Some (Inr ids, log') \<longrightarrow>
        (\<exists>n new.
           log' = log @ new \<and>
           requests_of new = map (\<lambda>k. ESearch q retmax (int k * retmax)) [0..<n] \<and>
           1 \<le> n \<and> tot \<le> int n * retmax \<and>
           (\<forall>k. 1 \<le> k \<and> k < n \<longrightarrow> int k * retmax < tot))) \<and>
     (0 < retmax \<and> 1 \<le> n \<and> tot \<le> int n * retmax \<and>
      (\<forall>k. 1 \<le> k \<and> k < n \<longrightarrow> int k * retmax < tot) \<and>
      reports_total L (pages 0) tot \<and>
      (\<forall>k<n. page_ok env (log @ paging q retmax k) (ESearch q retmax (int k * retmax)) (pages k) \<and>
         lists_ids (pages k) (page_ids k)) \<longrightarrow>
        fetch_pubmed_ids L env query retmax log =
          Some (Inr (concat (map page_ids [0..<n])), log @ paging q retmax n))"
proof (intro conjI impI)
  assume a: "page_ok env log (ESearch q 100 0) d0 \<and> reports_total L d0 250 \<and> lists_ids d0 ids0 \<and>
      page_ok env (log @ e0) (ESearch q 100 100) d1 \<and> lists_ids d1 ids1 \<and>
      page_ok env (log @ e0 @ e1) (ESearch q 100 200) d2 \<and> lists_ids d2 ids2"
  then have p0: "page_ok env log (ESearch q 100 0) d0" "read_count L d0 = Inr 250"
      "read_idlist d0 = Inr ids0"
    and p1: "page_ok env (log @ e0) (ESearch q 100 (0 + 100)) d1" "read_idlist d1 = Inr ids1"
    and p2: "page_ok env ((log @ e0) @ e1) (ESearch q 100 (0 + 100 + 100)) d2"
      "read_idlist d2 = Inr ids2"
    by (simp_all add: reports_total_read_count lists_ids_read_idlist)
  have "fetch_pubmed_ids L env query 100 log = esearch_loop L env q 100 0 (Some 250) [] log"
    unfolding fetch_pubmed_ids_def q_def[symmetric] by (rule esearch_loop_first_page[OF p0(1,2)])
  also have "\<dots> = esearch_loop L env q 100 (0 + 100) (Some 250) ([] @ ids0) (log @ e0)"
    unfolding e0_def by (subst esearch_loop_page[OF p0(1,3)]) simp
  also have "\<dots> = esearch_loop L env q 100 (0 + 100 + 100) (Some 250) (([] @ ids0) @ ids1)
       ((log @ e0) @ e1)"
    unfolding e1_def by (subst esearch_loop_page[OF p1]) simp
  also have "\<dots> = Some (Inr ((([] @ ids0) @ ids1) @ ids2), ((log @ e0) @ e1) @ e2)"
    unfolding e2_def by (subst esearch_loop_page[OF p2]) simp
  finally show "fetch_pubmed_ids L env query 100 log =
      Some (Inr (ids0 @ ids1 @ ids2), log @ e0 @ e1 @ e2)"
    by simp
next
  assume "0 < retmax"
  then show "fetch_pubmed_ids L env query retmax log \<noteq> None"
    unfolding fetch_pubmed_ids_def by (rule esearch_loop_returns)
next
  assume a: "0 < retmax \<and> page_ok env log (ESearch q retmax 0) d \<and> reports_total L d tot \<and>
      fetch_pubmed_ids L env query retmax log = Some (Inr ids, log')"
  then have run: "esearch_loop L env q retmax 0 None [] log = Some (Inr ids, log')"
    by (simp add: fetch_pubmed_ids_def q_def)
  from a have d: "page_ok env log (ESearch q retmax 0) d" "read_count L d = Inr tot"
    by (simp_all add: reports_total_read_count)
  from run have "esearch_loop L env q retmax 0 (Some tot) [] log = Some (Inr ids, log')"
    by (simp add: esearch_loop_first_page[OF d])
  from esearch_loop_known_requests[OF _ this] a obtain n new where
    "log' = log @ new"
    "requests_of new = map (\<lambda>k. ESearch q retmax (0 + int k * retmax)) [0..<n]"
    "1 \<le> n" "tot \<le> 0 + int n * retmax"
    "\<forall>k. 1 \<le> k \<and> k < n \<longrightarrow> 0 + int k * retmax < tot"
    by blast
  then have "log' = log @ new \<and>
           requests_of new = map (\<lambda>k. ESearch q retmax (int k * retmax)) [0..<n] \<and>
           1 \<le> n \<and> tot \<le> int n * retmax \<and>
           (\<forall>k. 1 \<le> k \<and> k < n \<longrightarrow> int k * retmax < tot)"
    by simp
  then show "\<exists>n new.
           log' = log @ new \<and>
           requests_of new = map (\<lambda>k. ESearch q retmax (int k * retmax)) [0..<n] \<and>
           1 \<le> n \<and> tot \<le> int n * retmax \<and>
           (\<forall>k. 1 \<le> k \<and> k < n \<longrightarrow> int k * retmax < tot)"
    by (intro exI)
next
  assume a: "0 < retmax \<and> 1 \<le> n \<and> tot \<le> int n * retmax \<and>
      (\<forall>k. 1 \<le> k \<and> k < n \<longrightarrow> int k * retmax < tot) \<and>
      reports_total L (pages 0) tot \<and>
      (\<forall>k<n. page_ok env (log @ paging q retmax k) (ESearch q retmax (int k * retmax)) (pages k) \<and>
         lists_ids (pages k) (page_ids k))"
  then have h: "0 < retmax" "0 < n" "tot \<le> int n * retmax"
    "\<forall>k. 1 \<le> k \<and> k < n \<longrightarrow> int k * retmax < tot"
    by simp_all
  from a have pg: "\<forall>k. 0 \<le> k \<and> k < n \<longrightarrow>
       page_ok env (log @ paging q retmax k) (ESearch q retmax (int k * retmax)) (pages k) \<and>
       read_idlist (pages k) = Inr (page_ids k)"
    by (simp add: lists_ids_read_idlist)
  from a h(2) have p0: "page_ok env log (ESearch q retmax 0) (pages 0)"
    "read_count L (pages 0) = Inr tot"
    by (auto simp: reports_total_read_count paging_def dest!: spec[of _ 0])
  have "fetch_pubmed_ids L env query retmax log =
     esearch_loop L env q retmax (int 0 * retmax) (Some tot) [] (log @ paging q retmax 0)"
    unfolding fetch_pubmed_ids_def q_def[symmetric]
    using esearch_loop_first_page[OF p0] by (simp add: paging_def)
  also have "\<dots> = Some (Inr ([] @ concat (map page_ids [0..<n])), log @ paging q retmax n)"
    by (rule esearch_loop_pages[OF h pg])
  finally show "fetch_pubmed_ids L env query retmax log =
      Some (Inr (concat (map page_ids [0..<n])), log @ paging q retmax n)"
    by simp
qed


theorem fetch_pubmed_ids_pagination_witness:
  "fetch_pubmed_ids ascii_lib (paged_service 250) '' cancer therapy '' 100 [] =
     Some (Inr (replicate 250 (JStr ''31452104'')),
       [Get (ESearch ''cancer therapy'' 100 0), Sleep_throttle,
        Get (ESearch ''cancer therapy'' 100 100), Sleep_throttle,
        Get (ESearch ''cancer therapy'' 100 200), Sleep_throttle]) \<and>
   fetch_pubmed_ids ascii_lib (paged_service 120) '' cancer therapy '' 50 [] =
     Some (Inr (replicate 120 (JStr ''31452104'')),
       [Get (ESearch ''cancer therapy'' 50 0), Sleep_throttle,
        Get (ESearch ''cancer therapy'' 50 50), Sleep_throttle,
        Get (ESearch ''cancer therapy'' 50 100), Sleep_throttle]) \<and>
   (\<exists>n new.
      [Get (ESearch ''cancer therapy'' 50 0), Sleep_throttle,
       Get (ESearch ''cancer therapy'' 50 50), Sleep_throttle,
       Get (ESearch ''cancer therapy'' 50 100), Sleep_throttle] = [] @ new \<and>
      requests_of new = map (\<lambda>k. ESearch ''cancer therapy'' 50 (int k * 50)) [0..<n] \<and>
      1 \<le> n \<and> 120 \<le> int n * 50 \<and> (\<forall>k. 1 \<le> k \<and> k < n \<longrightarrow> int k * 50 < 120))"
proof -
  let ?q = "clean_query ascii_lib '' cancer therapy ''"
  let ?page = "\<lambda>c n. JObj [(''header'', JObj []),
     (''esearchresult'', JObj [(''count'', c),
        (''idlist'', JArr (replicate n (JStr ''31452104'')))])]"
  have qe: "?q = ''cancer therapy''" by code_simp
  have p0: "page_ok (paged_service 250) [] (ESearch ?q 100 0) (?page (JInt 250) 100)"
    by (simp add: page_ok_def paged_service_def is_error_status_def)
  have c0: "reports_total ascii_lib (?page (JInt 250) 100) 250"
    by (simp add: reports_total_def)
  have i0: "lists_ids (?page (JInt 250) 100) (replicate 100 (JStr ''31452104''))"
    by (simp add: lists_ids_def)
  have p1: "page_ok (paged_service 250) ([] @ [Get (ESearch ?q 100 0), Sleep_throttle])
     (ESearch ?q 100 100) (?page (JStr ''0'') 100)"
    by (simp add: page_ok_def paged_service_def is_error_status_def)
  have i1: "lists_ids (?page (JStr ''0'') 100) (replicate 100 (JStr ''31452104''))"
    by (simp add: lists_ids_def)
  have p2: "page_ok (paged_service 250)
     ([] @ [Get (ESearch ?q 100 0), Sleep_throttle] @ [Get (ESearch ?q 100 100), Sleep_throttle])
     (ESearch ?q 100 200) (?page (JStr ''0'') 50)"
    by (simp add: page_ok_def paged_service_def is_error_status_def)
  have i2: "lists_ids (?page (JStr ''0'') 50) (replicate 50 (JStr ''31452104''))"
    by (simp add: lists_ids_def)
  note a = fetch_pubmed_ids_pagination[where L = ascii_lib and env = "paged_service 250"
      and query = "'' cancer therapy ''" and log = "[]", THEN conjunct1, rule_format,
      OF conjI[OF p0 conjI[OF c0 conjI[OF i0 conjI[OF p1 conjI[OF i1 conjI[OF p2 i2]]]]]]]
  have r250: "fetch_pubmed_ids ascii_lib (paged_service 250) '' cancer therapy '' 100 [] =
     Some (Inr (replicate 250 (JStr ''31452104'')),
       [Get (ESearch ''cancer therapy'' 100 0), Sleep_throttle,
        Get (ESearch ''cancer therapy'' 100 100), Sleep_throttle,
        Get (ESearch ''cancer therapy'' 100 200), Sleep_throttle])"
    unfolding a qe by (simp add: replicate_add[symmetric])
  let ?pages = "\<lambda>k::nat. ?page (if k = 0 then JInt 120 else JStr ''0'')
     (nat (min 50 (120 - int k * 50)))"
  let ?ids = "\<lambda>k::nat. replicate (nat (min 50 (120 - int k * 50))) (JStr ''31452104'')"
  have g1: "(0::int) < 50" by simp
  have g2: "1 \<le> (3::nat)" by simp
  have g3: "(120::int) \<le> int 3 * 50" by simp
  have g4: "\<forall>k. 1 \<le> k \<and> k < (3::nat) \<longrightarrow> int k * 50 < 120" by auto
  have g5: "reports_total ascii_lib (?pages 0) 120" by (simp add: reports_total_def)
  have g6: "\<forall>k<3. page_ok (paged_service 120) ([] @ paging ?q 50 k) (ESearch ?q 50 (int k * 50))
       (?pages k) \<and> lists_ids (?pages k) (?ids k)"
    by (simp add: page_ok_def paged_service_def is_error_status_def lists_ids_def)
  note d = fetch_pubmed_ids_pagination[where L = ascii_lib and env = "paged_service 120"
      and query = "'' cancer therapy ''" and log = "[]" and retmax = 50 and n = 3 and tot = 120
      and pages = ?pages and page_ids = ?ids,
      THEN conjunct2, THEN conjunct2, THEN conjunct2, rule_format,
      OF conjI[OF g1 conjI[OF g2 conjI[OF g3 conjI[OF g4 conjI[OF g5 g6]]]]]]
  have upt3: "[0..<3] = [0, 1, 2]" by code_simp
  have r120: "fetch_pubmed_ids ascii_lib (paged_service 120) '' cancer therapy '' 50 [] =
     Some (Inr (replicate 120 (JStr ''31452104'')),
       [Get (ESearch ''cancer therapy'' 50 0), Sleep_throttle,
        Get (ESearch ''cancer therapy'' 50 50), Sleep_throttle,
        Get (ESearch ''cancer therapy'' 50 100), Sleep_throttle])"
    unfolding d qe upt3 paging_def page_events_def by (simp add: replicate_add[symmetric])
  have f0: "page_ok (paged_service 120) [] (ESearch ?q 50 0) (?pages 0)"
    by (simp add: page_ok_def paged_service_def is_error_status_def)
  note c = fetch_pubmed_ids_pagination[where L = ascii_lib and env = "paged_service 120"
      and query = "'' cancer therapy ''" and log = "[]" and retmax = 50 and tot = 120,
      THEN conjunct2, THEN conjunct2, THEN conjunct1, rule_format,
      OF conjI[OF g1 conjI[OF f0 conjI[OF g5 r120]]]]
  show ?thesis using r250 r120 c[unfolded qe] by (intro conjI)
qed

end
